theory Spec2Isabelle
  imports Main "HOL-Library.Word"
begin

section \<open>SAAF: the self-auditing async flow of index.js\<close>

text \<open>
  The development embeds the two static methods of class \<open>SAAF\<close>:
  \<open>computeAuditRoot\<close> (the hash chain over the audit entries) and \<open>execute\<close>
  (the bounded Draft, Critique, Revise loop over an ordered list of steps).

  Conventions of the embedding.
  \<^item> A flow state is any JavaScript value. Only the distinction the source tests
    (\<open>=== undefined\<close>) and the value it substitutes (\<open>null\<close>) are made explicit;
    every other value is an opaque \<open>Value\<close>.
  \<^item> Reading a property that an object does not have yields \<open>undefined\<close>, so an
    absent state field of an audit entry is \<open>Undefined\<close>, an absent \<open>error\<close> or
    \<open>iterations\<close> field is \<open>None\<close>, and \<open>critiques\<close> is \<open>None\<close> exactly when
    \<open>Array.isArray\<close> is false for it.
  \<^item> The three capabilities of a step are caller code. Each one is a function of its
    arguments and of the world it runs in (closures, the clock, I/O), and returns
    an outcome together with the world it leaves: it returns a value (a promise
    that fulfils, where the engine awaits it), throws (or rejects), or never comes back.
  \<^item> \<open>JSON.stringify\<close>, SHA-256 and the wall clock belong to the platform and are
    parameters of the model. \<open>JSON.stringify\<close> is taken to return a string: states
    on which it throws (cyclic objects, BigInt) are outside the model.
  \<^item> \<open>maxIterations\<close> and \<open>delayMs\<close> are modelled at their documented type, an
    optional integer: \<open>None\<close> is an absent (undefined) field. Fractional numbers,
    \<open>NaN\<close> and \<open>null\<close> are outside the model.
  \<^item> Every invocation of a capability is logged, with its arguments and its
    outcome, in the field \<open>calls\<close> of the store. The log is an observer of the run:
    nothing the engine computes reads it.
\<close>

subsection \<open>Values\<close>

type_synonym byte = "8 word"

datatype 'a jsval = Undefined | Null | Value 'a

text \<open>What a \<open>throw\<close> carries: an \<open>Error\<close> object (with its message), the
  \<open>TypeError\<close> the engine itself raises, or any other value (with its \<open>String(e)\<close>).\<close>

datatype thrown = TypeError string | ErrorObject string | NonError string

text \<open>\<open>e instanceof Error ? e.message : String(e)\<close>\<close>

fun error_message :: "thrown \<Rightarrow> string" where
  "error_message (TypeError m) = m"
| "error_message (ErrorObject m) = m"
| "error_message (NonError s) = s"

datatype 'r outcome = Returns 'r | Throws thrown | Hangs

text \<open>What \<open>critique\<close> hands back: a falsy value, an array of issues, or a truthy
  value that is not an array (an object, a string, a pending promise).\<close>

datatype 'i critique_value = Falsy | TruthyNonArray | Array "'i list"

text \<open>\<open>v || []\<close>\<close>

fun or_empty :: "'i critique_value \<Rightarrow> 'i critique_value" where
  "or_empty Falsy = Array []"
| "or_empty v = v"

text \<open>\<open>!Array.isArray(critiques) || critiques.length === 0\<close>\<close>

fun no_issues :: "'i critique_value \<Rightarrow> bool" where
  "no_issues (Array cs) = (length cs = 0)"
| "no_issues v = True"

text \<open>\<open>Array.isArray(critiques) && critiques.length > 0\<close>\<close>

fun has_issues :: "'i critique_value \<Rightarrow> bool" where
  "has_issues (Array cs) = (length cs > 0)"
| "has_issues v = False"

fun issues_of :: "'i critique_value \<Rightarrow> 'i list" where
  "issues_of (Array cs) = cs"
| "issues_of v = []"

subsection \<open>Audit entries and the hash chain\<close>

record ('a, 'i) entry =
  stepIndex :: nat
  ts :: int
  phase :: string
  error :: "string option"
  inputState :: "'a jsval"
  draftState :: "'a jsval"
  critiques :: "'i list option"
  finalState :: "'a jsval"
  iterations :: "nat option"

text \<open>The object literal \<open>payload\<close> of \<open>computeAuditRoot\<close>.\<close>

record 'a payload =
  payload_stepIndex :: nat
  payload_ts :: int
  payload_phase :: string
  critiqueCount :: nat
  payload_inputState :: "'a jsval"
  payload_draftState :: "'a jsval"
  payload_finalState :: "'a jsval"

text \<open>The platform functions \<open>computeAuditRoot\<close> calls: \<open>JSON.stringify\<close> on a
  payload, and the SHA-256 digest of a byte sequence.\<close>

record 'a platform =
  JSON_stringify :: "'a payload \<Rightarrow> string"
  sha256 :: "byte list \<Rightarrow> byte list"

text \<open>\<open>Buffer.from(str)\<close>: a \<open>string\<close> of the model is the UTF-8 text, one \<open>char\<close>
  per byte.\<close>

definition Buffer_from :: "string \<Rightarrow> byte list" where
  "Buffer_from s = map (\<lambda>c. of_nat (of_char c)) s"

text \<open>\<open>buf.toString("hex")\<close>: two lowercase digits per byte.\<close>

definition hex_digit :: "nat \<Rightarrow> char" where
  "hex_digit n = ''0123456789abcdef'' ! (n mod 16)"

definition hex_of_byte :: "byte \<Rightarrow> string" where
  "hex_of_byte b = [hex_digit (unat b div 16), hex_digit (unat b mod 16)]"

definition toString_hex :: "byte list \<Rightarrow> string" where
  "toString_hex bs = concat (map hex_of_byte bs)"

text \<open>\<open>x === undefined ? null : x\<close>\<close>

fun undefined_to_null :: "'a jsval \<Rightarrow> 'a jsval" where
  "undefined_to_null Undefined = Null"
| "undefined_to_null v = v"

definition make_payload :: "('a, 'i) entry \<Rightarrow> 'a payload" where
  "make_payload entry =
     \<lparr> payload_stepIndex = stepIndex entry,
       payload_ts = ts entry,
       payload_phase = phase entry,
       critiqueCount = (case critiques entry of Some cs \<Rightarrow> length cs | None \<Rightarrow> 0),
       payload_inputState = undefined_to_null (inputState entry),
       payload_draftState = undefined_to_null (draftState entry),
       payload_finalState = undefined_to_null (finalState entry) \<rparr>"

text \<open>The body of \<open>for (const entry of auditHistory)\<close>, with the accumulator
  \<open>running\<close>: \<open>h.update(running); h.update(data); running = h.digest()\<close>.\<close>

fun chain :: "'a platform \<Rightarrow> byte list \<Rightarrow> ('a, 'i) entry list \<Rightarrow> byte list" where
  "chain P running [] = running"
| "chain P running (entry # rest) =
     (let payload = make_payload entry;
          data = Buffer_from (JSON_stringify P payload)
      in chain P (sha256 P (running @ data)) rest)"

definition computeAuditRoot :: "'a platform \<Rightarrow> ('a, 'i) entry list \<Rightarrow> string" where
  "computeAuditRoot P auditHistory = toString_hex (chain P [] auditHistory)"

text \<open>The algorithm of the specification, in its words: a payload with the
  entry's step index, timestamp and phase, the number of critiques if present
  else 0, and the three states with an explicit null when absent; the
  accumulator starts empty and is replaced, entry after entry, by the digest of
  the accumulator followed by the serialized payload.\<close>

definition spec_payload :: "('a, 'i) entry \<Rightarrow> 'a payload" where
  "spec_payload e =
     \<lparr> payload_stepIndex = stepIndex e,
       payload_ts = ts e,
       payload_phase = phase e,
       critiqueCount = (if critiques e = None then 0 else length (the (critiques e))),
       payload_inputState = (if inputState e = Undefined then Null else inputState e),
       payload_draftState = (if draftState e = Undefined then Null else draftState e),
       payload_finalState = (if finalState e = Undefined then Null else finalState e) \<rparr>"

definition spec_chain_root :: "'a platform \<Rightarrow> ('a, 'i) entry list \<Rightarrow> byte list" where
  "spec_chain_root P es =
     foldl (\<lambda>acc e. sha256 P (acc @ Buffer_from (JSON_stringify P (spec_payload e)))) [] es"

subsection \<open>Steps, the store of a run, and the log of invocations\<close>

record ('w, 'a, 'i) step =
  draft :: "('a jsval \<Rightarrow> 'w \<Rightarrow> 'a jsval outcome \<times> 'w) option"
  critique :: "('a jsval \<Rightarrow> 'w \<Rightarrow> 'i critique_value outcome \<times> 'w) option"
  revise :: "('a jsval \<Rightarrow> 'i list \<Rightarrow> 'a jsval \<Rightarrow> 'w \<Rightarrow> 'a jsval outcome \<times> 'w) option"
  maxIterations :: "int option"
  delayMs :: "int option"

text \<open>A capability field is \<open>None\<close> when \<open>typeof\<close> of it is not \<open>"function"\<close>.
  An element of the step list is \<open>None\<close> when it is \<open>null\<close>, \<open>undefined\<close> or
  another falsy value, so that \<open>steps[i] || {}\<close> is the empty object.\<close>

definition empty_object :: "('w, 'a, 'i) step" where
  "empty_object =
     \<lparr> draft = None, critique = None, revise = None, maxIterations = None, delayMs = None \<rparr>"

datatype ('a, 'i) invocation =
    DraftCall nat "'a jsval" "'a jsval outcome"
  | CritiqueCall nat "'a jsval" "'i critique_value outcome"
  | ReviseCall nat "'a jsval" "'i list" "'a jsval" "'a jsval outcome"

record ('w, 'a, 'i) store =
  auditHistory :: "('a, 'i) entry list"
  state :: "'a jsval"
  world :: 'w
  calls :: "('a, 'i) invocation list"

text \<open>The platform as \<open>execute\<close> uses it: \<open>Date.now()\<close> reads the clock of the
  world, and awaiting \<open>setTimeout(r, delayMs)\<close> lets the world move on.\<close>

record 'w host =
  Date_now :: "'w \<Rightarrow> int"
  setTimeout :: "int \<Rightarrow> 'w \<Rightarrow> 'w"

definition push :: "('a, 'i) entry \<Rightarrow> ('w, 'a, 'i) store \<Rightarrow> ('w, 'a, 'i) store" where
  "push e \<sigma> = \<sigma>\<lparr>auditHistory := auditHistory \<sigma> @ [e]\<rparr>"

definition logged :: "('a, 'i) invocation \<Rightarrow> 'w \<Rightarrow> ('w, 'a, 'i) store \<Rightarrow> ('w, 'a, 'i) store" where
  "logged c w \<sigma> = \<sigma>\<lparr>world := w, calls := calls \<sigma> @ [c]\<rparr>"

subsection \<open>The template literal of the TypeError\<close>

definition digit_char :: "nat \<Rightarrow> char" where
  "digit_char n = ''0123456789'' ! (n mod 10)"

function decimal :: "nat \<Rightarrow> string" where
  "decimal n = (if n < 10 then [digit_char n] else decimal (n div 10) @ [digit_char n])"
  by pat_completeness auto
termination
  by (relation "measure (\<lambda>n. n)") auto

definition invalid_message :: "nat \<Rightarrow> string" where
  "invalid_message i =
     ''Step '' @ decimal i @ '' is invalid. Expected functions: draft, critique, revise.''"

subsection \<open>The critique and revise loop\<close>

text \<open>How control leaves the inner \<open>for\<close> loop: through \<open>break\<close>, through the loop
  condition, through a \<open>throw\<close>, or not at all.\<close>

datatype loop_exit = Broke | Exhausted | Threw thrown | Hung

datatype ('w, 'a, 'i) iteration =
    Continue "'a jsval" "'i critique_value" "('w, 'a, 'i) store"
  | Stop loop_exit "'i critique_value" "('w, 'a, 'i) store"

text \<open>One pass through the body of the inner loop: critique, the test for no
  issues, revise, the optional delay.\<close>

definition loop_body ::
  "'w host \<Rightarrow> nat \<Rightarrow> int \<Rightarrow>
   ('a jsval \<Rightarrow> 'w \<Rightarrow> 'i critique_value outcome \<times> 'w) \<Rightarrow>
   ('a jsval \<Rightarrow> 'i list \<Rightarrow> 'a jsval \<Rightarrow> 'w \<Rightarrow> 'a jsval outcome \<times> 'w) \<Rightarrow>
   'a jsval \<Rightarrow> 'a jsval \<Rightarrow> 'a jsval \<Rightarrow> 'i critique_value \<Rightarrow> nat \<Rightarrow>
   ('w, 'a, 'i) store \<Rightarrow> ('w, 'a, 'i) iteration" where
  "loop_body H i delay crit rvs stepStartState drafted current critiques0 iterations0 \<sigma> =
     (case crit current (world \<sigma>) of
        (Hangs, w1) \<Rightarrow>
          Stop Hung critiques0 (logged (CritiqueCall i current Hangs) (world \<sigma>) \<sigma>)
      | (Throws e, w1) \<Rightarrow>
          (let \<sigma>1 = logged (CritiqueCall i current (Throws e)) w1 \<sigma>
           in Stop (Threw e) critiques0
                (push \<lparr> stepIndex = i, ts = Date_now H (world \<sigma>1), phase = ''critique:error'',
                        error = Some (error_message e), inputState = stepStartState,
                        draftState = current, critiques = None, finalState = Undefined,
                        iterations = None \<rparr> \<sigma>1))
      | (Returns v, w1) \<Rightarrow>
          (let \<sigma>1 = logged (CritiqueCall i current (Returns v)) w1 \<sigma>;
               critiques1 = or_empty v
           in if no_issues critiques1 then
                Stop Broke critiques1
                  ((push \<lparr> stepIndex = i, ts = Date_now H (world \<sigma>1),
                           phase = (if iterations0 = 0 then ''draft:accepted'' else ''revise:accepted''),
                           error = None, inputState = stepStartState, draftState = drafted,
                           critiques = Some [], finalState = current,
                           iterations = Some iterations0 \<rparr> \<sigma>1) \<lparr>state := current\<rparr>)
              else
                (case rvs current (issues_of critiques1) stepStartState (world \<sigma>1) of
                   (Hangs, w2) \<Rightarrow>
                     Stop Hung critiques1
                       (logged (ReviseCall i current (issues_of critiques1) stepStartState Hangs)
                          (world \<sigma>1) \<sigma>1)
                 | (Throws e, w2) \<Rightarrow>
                     (let \<sigma>2 = logged (ReviseCall i current (issues_of critiques1) stepStartState
                                         (Throws e)) w2 \<sigma>1
                      in Stop (Threw e) critiques1
                           (push \<lparr> stepIndex = i, ts = Date_now H (world \<sigma>2),
                                   phase = ''revise:error'', error = Some (error_message e),
                                   inputState = stepStartState, draftState = drafted,
                                   critiques = Some (issues_of critiques1),
                                   finalState = Undefined, iterations = None \<rparr> \<sigma>2))
                 | (Returns current1, w2) \<Rightarrow>
                     (let \<sigma>2 = logged (ReviseCall i current (issues_of critiques1) stepStartState
                                         (Returns current1)) w2 \<sigma>1
                      in Continue current1 critiques1
                           (if delay > 0 then \<sigma>2\<lparr>world := setTimeout H delay (world \<sigma>2)\<rparr>
                            else \<sigma>2)))))"

text \<open>\<open>for (; iterations < Math.max(1, maxIterations); iterations += 1)\<close>. The
  result holds the locals the code after the loop reads: \<open>current\<close>, \<open>critiques\<close>
  and \<open>iterations\<close>.\<close>

function critique_revise_loop ::
  "'w host \<Rightarrow> nat \<Rightarrow> int \<Rightarrow> int \<Rightarrow>
   ('a jsval \<Rightarrow> 'w \<Rightarrow> 'i critique_value outcome \<times> 'w) \<Rightarrow>
   ('a jsval \<Rightarrow> 'i list \<Rightarrow> 'a jsval \<Rightarrow> 'w \<Rightarrow> 'a jsval outcome \<times> 'w) \<Rightarrow>
   'a jsval \<Rightarrow> 'a jsval \<Rightarrow> 'a jsval \<Rightarrow> 'i critique_value \<Rightarrow> nat \<Rightarrow>
   ('w, 'a, 'i) store \<Rightarrow>
   loop_exit \<times> 'a jsval \<times> 'i critique_value \<times> nat \<times> ('w, 'a, 'i) store" where
  "critique_revise_loop H i maxIter delay crit rvs stepStartState drafted current critiques0
       iterations0 \<sigma> =
     (if int iterations0 < max 1 maxIter then
        (case loop_body H i delay crit rvs stepStartState drafted current critiques0
                iterations0 \<sigma> of
           Stop ex critiques1 \<sigma>1 \<Rightarrow> (ex, current, critiques1, iterations0, \<sigma>1)
         | Continue current1 critiques1 \<sigma>1 \<Rightarrow>
             critique_revise_loop H i maxIter delay crit rvs stepStartState drafted
               current1 critiques1 (iterations0 + 1) \<sigma>1)
      else (Exhausted, current, critiques0, iterations0, \<sigma>))"
  by pat_completeness auto
termination
  by (relation "measure (\<lambda>(H, i, maxIter, delay, crit, rvs, s0, d, cur, cs, iterations0, \<sigma>).
                   nat (max 1 maxIter - int iterations0))") auto

subsection \<open>One step, and the run\<close>

text \<open>The body of the outer loop for the element \<open>steps[i]\<close>. The destructuring
  defaults read \<open>steps[i] || {}\<close>; the cap check after the inner loop reads
  \<open>steps[i].maxIterations ?? 3\<close> from the element itself, which throws for a
  \<open>null\<close> element. That branch is part of the function as written; it is never
  taken, because an element without callable capabilities has failed the run
  before (lemma \<open>run_step_cases\<close>).\<close>

definition run_step ::
  "'w host \<Rightarrow> nat \<Rightarrow> ('w, 'a, 'i) step option \<Rightarrow> ('w, 'a, 'i) store \<Rightarrow>
   unit outcome \<times> ('w, 'a, 'i) store" where
  "run_step H i element \<sigma> =
     (let s = (case element of None \<Rightarrow> empty_object | Some s \<Rightarrow> s);
          maxIter = (case maxIterations s of None \<Rightarrow> 3 | Some m \<Rightarrow> m);
          delay = (case delayMs s of None \<Rightarrow> 0 | Some d \<Rightarrow> d)
      in case (draft s, critique s, revise s) of
           (Some dr, Some crit, Some rvs) \<Rightarrow>
             (let stepStartState = state \<sigma>
              in case dr stepStartState (world \<sigma>) of
                   (Hangs, w1) \<Rightarrow>
                     (Hangs, logged (DraftCall i stepStartState Hangs) (world \<sigma>) \<sigma>)
                 | (Throws e, w1) \<Rightarrow>
                     (let \<sigma>1 = logged (DraftCall i stepStartState (Throws e)) w1 \<sigma>
                      in (Throws e,
                          push \<lparr> stepIndex = i, ts = Date_now H (world \<sigma>1),
                                 phase = ''draft:error'', error = Some (error_message e),
                                 inputState = stepStartState, draftState = Undefined,
                                 critiques = None, finalState = Undefined,
                                 iterations = None \<rparr> \<sigma>1))
                 | (Returns drafted, w1) \<Rightarrow>
                     (let \<sigma>1 = logged (DraftCall i stepStartState (Returns drafted)) w1 \<sigma>
                      in case critique_revise_loop H i maxIter delay crit rvs stepStartState
                                drafted drafted (Array []) 0 \<sigma>1 of
                           (Threw e, current, critiques1, iterations1, \<sigma>2) \<Rightarrow> (Throws e, \<sigma>2)
                         | (Hung, current, critiques1, iterations1, \<sigma>2) \<Rightarrow> (Hangs, \<sigma>2)
                         | (ex, current, critiques1, iterations1, \<sigma>2) \<Rightarrow>
                             (case element of
                                None \<Rightarrow>
                                  (Throws (TypeError ''Cannot read properties of undefined''), \<sigma>2)
                              | Some s' \<Rightarrow>
                                  if int iterations1
                                       \<ge> max 1 (case maxIterations s' of None \<Rightarrow> 3 | Some m \<Rightarrow> m)
                                     \<and> has_issues critiques1
                                  then (Returns (),
                                        (push \<lparr> stepIndex = i, ts = Date_now H (world \<sigma>2),
                                                phase = ''revise:capped'', error = None,
                                                inputState = stepStartState,
                                                draftState = drafted,
                                                critiques = Some (issues_of critiques1),
                                                finalState = current,
                                                iterations = Some iterations1 \<rparr> \<sigma>2)
                                        \<lparr>state := current\<rparr>)
                                  else (Returns (), \<sigma>2))))
         | _ \<Rightarrow>
             (Throws (TypeError (invalid_message i)),
              push \<lparr> stepIndex = i, ts = Date_now H (world \<sigma>), phase = ''invalid'',
                     error = Some (invalid_message i), inputState = state \<sigma>,
                     draftState = Undefined, critiques = None, finalState = Undefined,
                     iterations = None \<rparr> \<sigma>))"

text \<open>\<open>for (let i = 0; i < steps.length; i += 1)\<close> over the elements from index
  \<open>i\<close> on, and \<open>return state\<close> after the last one.\<close>

fun run_steps ::
  "'w host \<Rightarrow> nat \<Rightarrow> ('w, 'a, 'i) step option list \<Rightarrow> ('w, 'a, 'i) store \<Rightarrow>
   'a jsval outcome \<times> ('w, 'a, 'i) store" where
  "run_steps H i [] \<sigma> = (Returns (state \<sigma>), \<sigma>)"
| "run_steps H i (element # rest) \<sigma> =
     (case run_step H i element \<sigma> of
        (Returns u, \<sigma>1) \<Rightarrow> run_steps H (i + 1) rest \<sigma>1
      | (Throws e, \<sigma>1) \<Rightarrow> (Throws e, \<sigma>1)
      | (Hangs, \<sigma>1) \<Rightarrow> (Hangs, \<sigma>1))"

text \<open>\<open>execute\<close>: the outcome is how the returned promise settles (fulfilled with
  the final state, rejected with the error, or pending for ever); the store
  holds the \<open>auditHistory\<close> attached to the promise.\<close>

definition execute ::
  "'w host \<Rightarrow> 'a jsval \<Rightarrow> ('w, 'a, 'i) step option list \<Rightarrow> 'w \<Rightarrow>
   'a jsval outcome \<times> ('w, 'a, 'i) store" where
  "execute H initialState steps w =
     run_steps H 0 steps \<lparr> auditHistory = [], state = initialState, world = w, calls = [] \<rparr>"

text \<open>The getter \<open>auditRoot\<close> of the returned promise.\<close>

definition auditRoot :: "'a platform \<Rightarrow> ('w, 'a, 'i) store \<Rightarrow> string" where
  "auditRoot P \<sigma> = computeAuditRoot P (auditHistory \<sigma>)"

declare critique_revise_loop.simps [simp del]
declare decimal.simps [simp del]

subsection \<open>Reading the log of a run\<close>

fun call_index :: "('a, 'i) invocation \<Rightarrow> nat" where
  "call_index (DraftCall i s r) = i"
| "call_index (CritiqueCall i s r) = i"
| "call_index (ReviseCall i s cs s0 r) = i"

fun is_critique_call :: "('a, 'i) invocation \<Rightarrow> bool" where
  "is_critique_call (CritiqueCall i s r) = True"
| "is_critique_call c = False"

fun is_revise_call :: "('a, 'i) invocation \<Rightarrow> bool" where
  "is_revise_call (ReviseCall i s cs s0 r) = True"
| "is_revise_call c = False"

text \<open>The invocations of step \<open>k\<close> in a log.\<close>

definition critique_calls :: "nat \<Rightarrow> ('a, 'i) invocation list \<Rightarrow> ('a, 'i) invocation list" where
  "critique_calls k cs = filter (\<lambda>c. is_critique_call c \<and> call_index c = k) cs"

definition revise_calls :: "nat \<Rightarrow> ('a, 'i) invocation list \<Rightarrow> ('a, 'i) invocation list" where
  "revise_calls k cs = filter (\<lambda>c. is_revise_call c \<and> call_index c = k) cs"

text \<open>What was logged, and what was appended to the audit history, between an
  earlier store and a later one.\<close>

definition new_calls :: "('w, 'a, 'i) store \<Rightarrow> ('w, 'a, 'i) store \<Rightarrow> ('a, 'i) invocation list" where
  "new_calls \<sigma> \<sigma>' = drop (length (calls \<sigma>)) (calls \<sigma>')"

definition new_entries :: "('w, 'a, 'i) store \<Rightarrow> ('w, 'a, 'i) store \<Rightarrow> ('a, 'i) entry list" where
  "new_entries \<sigma> \<sigma>' = drop (length (auditHistory \<sigma>)) (auditHistory \<sigma>')"

text \<open>\<open>Math.max(1, maxIterations)\<close> with the default 3, as a number of iterations.\<close>

definition iteration_budget :: "('w, 'a, 'i) step \<Rightarrow> nat" where
  "iteration_budget s = nat (max 1 (case maxIterations s of None \<Rightarrow> 3 | Some m \<Rightarrow> m))"

definition progress_phase :: "string \<Rightarrow> bool" where
  "progress_phase p = (p = ''draft:accepted'' \<or> p = ''revise:accepted'' \<or> p = ''revise:capped'')"

text \<open>A revise invocation that returned.\<close>

fun revise_returned :: "('a, 'i) invocation \<Rightarrow> bool" where
  "revise_returned (ReviseCall i s cs s0 (Returns r)) = True"
| "revise_returned c = False"

text \<open>The outcome of the last critique invocation in a log, if there is one.\<close>

fun last_critique_result :: "('a, 'i) invocation list \<Rightarrow> 'i critique_value outcome option" where
  "last_critique_result [] = None"
| "last_critique_result (c # cs) =
     (case last_critique_result cs of
        Some r \<Rightarrow> Some r
      | None \<Rightarrow> (case c of CritiqueCall i s r \<Rightarrow> Some r | _ \<Rightarrow> None))"

subsection \<open>Comparing audit histories\<close>

text \<open>The number of fields in which two entries differ, and two histories that
  are identical except for one field of one entry.\<close>

definition differing_fields :: "('a, 'i) entry \<Rightarrow> ('a, 'i) entry \<Rightarrow> nat" where
  "differing_fields a b =
     (if stepIndex a = stepIndex b then 0 else 1) + (if ts a = ts b then 0 else 1) +
     (if phase a = phase b then 0 else 1) + (if error a = error b then 0 else 1) +
     (if inputState a = inputState b then 0 else 1) +
     (if draftState a = draftState b then 0 else 1) +
     (if critiques a = critiques b then 0 else 1) +
     (if finalState a = finalState b then 0 else 1) +
     (if iterations a = iterations b then 0 else 1)"

fun one_field_apart :: "('a, 'i) entry list \<Rightarrow> ('a, 'i) entry list \<Rightarrow> bool" where
  "one_field_apart (a # as) (b # bs) =
     (if a = b then one_field_apart as bs else differing_fields a b = 1 \<and> as = bs)"
| "one_field_apart as bs = False"

text \<open>The byte sequences handed to SHA-256 while \<open>chain\<close> runs, in order.\<close>

fun hashed_inputs :: "'a platform \<Rightarrow> byte list \<Rightarrow> ('a, 'i) entry list \<Rightarrow> byte list list" where
  "hashed_inputs P running [] = []"
| "hashed_inputs P running (entry # rest) =
     (let data = Buffer_from (JSON_stringify P (make_payload entry))
      in (running @ data) # hashed_inputs P (sha256 P (running @ data)) rest)"

subsection \<open>Concrete runs, in the style of the test suite\<close>

text \<open>A world that is only a clock, in milliseconds: every capability takes one
  millisecond, and a timeout takes its delay.\<close>

definition clock_host :: "int host" where
  "clock_host = \<lparr> Date_now = (\<lambda>w. w), setTimeout = (\<lambda>d w. w + d) \<rparr>"

definition returning :: "'r \<Rightarrow> int \<Rightarrow> 'r outcome \<times> int" where
  "returning r w = (Returns r, w + 1)"

text \<open>A state \<open>{v: n}\<close> is \<open>Value n\<close>. The step of the test "Recursive loop caps at
  maxIterations and proceeds": the draft sets \<open>v\<close> to 0, the critique objects
  unless \<open>v\<close> is 3, a revision adds one, and \<open>maxIterations\<close> is 2.\<close>

definition not_three_step :: "(int, int, string) step" where
  "not_three_step =
     \<lparr> draft = Some (\<lambda>s. returning (Value 0)),
       critique = Some (\<lambda>s. returning (if s = Value 3 then Array [] else Array [''not three''])),
       revise = Some (\<lambda>s cs s0. returning (case s of Value v \<Rightarrow> Value (v + 1) | _ \<Rightarrow> s)),
       maxIterations = Some 2,
       delayMs = None \<rparr>"

text \<open>A step with the same draft and revise whose critique never clears, whatever
  the candidate.\<close>

definition never_clearing_step :: "(int, int, string) step" where
  "never_clearing_step =
     \<lparr> draft = Some (\<lambda>s. returning (Value 0)),
       critique = Some (\<lambda>s. returning (Array [''unresolved''])),
       revise = Some (\<lambda>s cs s0. returning (case s of Value v \<Rightarrow> Value (v + 1) | _ \<Rightarrow> s)),
       maxIterations = Some 2,
       delayMs = None \<rparr>"

text \<open>The same step with a revise that throws on its second call, when the
  candidate is \<open>{v: 1}\<close>.\<close>

definition breaking_step :: "(int, int, string) step" where
  "breaking_step =
     \<lparr> draft = Some (\<lambda>s. returning (Value 0)),
       critique = Some (\<lambda>s. returning (Array [''unresolved''])),
       revise = Some (\<lambda>s cs s0 w.
                  if s = Value 1 then (Throws (ErrorObject ''cannot revise''), w + 1)
                  else returning (case s of Value v \<Rightarrow> Value (v + 1) | _ \<Rightarrow> s) w),
       maxIterations = Some 2,
       delayMs = None \<rparr>"

text \<open>A step whose critique is an \<open>async\<close> function: what it hands back is a promise
  of the issues, a truthy value that is not an array, and the engine does not
  await it.\<close>

definition suspending_step :: "(int, int, string) step" where
  "suspending_step =
     \<lparr> draft = Some (\<lambda>s. returning (Value 0)),
       critique = Some (\<lambda>s. returning TruthyNonArray),
       revise = Some (\<lambda>s cs s0. returning (case s of Value v \<Rightarrow> Value (v + 1) | _ \<Rightarrow> s)),
       maxIterations = Some 2,
       delayMs = None \<rparr>"

text \<open>The step of the test "Pass-through when no critiques".\<close>

definition pass_through_step :: "(int, int, string) step" where
  "pass_through_step =
     \<lparr> draft = Some (\<lambda>s. returning (Value 1)),
       critique = Some (\<lambda>s. returning (Array [])),
       revise = Some (\<lambda>s cs s0. returning (Value 99)),
       maxIterations = None,
       delayMs = None \<rparr>"

text \<open>The malformed step of the test "Invalid step surfaces error and audits":
  \<open>draft: null\<close>.\<close>

definition malformed_step :: "(int, int, string) step" where
  "malformed_step = pass_through_step\<lparr>draft := None\<rparr>"

definition start_store :: "(int, int, string) store" where
  "start_store = \<lparr> auditHistory = [], state = Null, world = 0, calls = [] \<rparr>"

text \<open>A stand-in platform for concrete chains: it serializes a payload to its
  phase and digests a byte sequence to itself.\<close>

definition demo_platform :: "int platform" where
  "demo_platform = \<lparr> JSON_stringify = (\<lambda>p. payload_phase p), sha256 = (\<lambda>bs. bs) \<rparr>"

definition accepted_entry :: "(int, string) entry" where
  "accepted_entry =
     \<lparr> stepIndex = 0, ts = 2, phase = ''draft:accepted'', error = None, inputState = Null,
       draftState = Value 1, critiques = Some [], finalState = Value 1, iterations = Some 0 \<rparr>"

section \<open>The hash chain\<close>

lemma undefined_to_null_if: "undefined_to_null v = (if v = Undefined then Null else v)"
  by (cases v) simp_all

lemma make_payload_spec: "make_payload e = spec_payload e"
  by (cases "critiques e") (simp_all add: make_payload_def spec_payload_def undefined_to_null_if)

lemma chain_foldl:
  "chain P acc es =
     foldl (\<lambda>acc e. sha256 P (acc @ Buffer_from (JSON_stringify P (spec_payload e)))) acc es"
  by (induction es arbitrary: acc) (simp_all add: make_payload_spec)

lemma hex_digit_inj:
  assumes "hex_digit m = hex_digit n" "m < 16" "n < 16"
  shows "m = n"
proof -
  have d: "distinct ''0123456789abcdef''" by simp
  from assms have "''0123456789abcdef'' ! m = ''0123456789abcdef'' ! n"
    by (simp add: hex_digit_def)
  with d assms(2,3) show ?thesis by (simp add: nth_eq_iff_index_eq)
qed

lemma hex_of_byte_inj:
  assumes "hex_of_byte a = hex_of_byte b"
  shows "a = b"
proof -
  have la: "unat a < 256" and lb: "unat b < 256"
    using unsigned_less[of a] unsigned_less[of b] by simp_all
  from assms have "hex_digit (unat a div 16) = hex_digit (unat b div 16)"
    "hex_digit (unat a mod 16) = hex_digit (unat b mod 16)"
    by (simp_all add: hex_of_byte_def)
  then have "unat a div 16 = unat b div 16" "unat a mod 16 = unat b mod 16"
    using la lb by (auto intro!: hex_digit_inj)
  then have "unat a = unat b" by (metis div_mult_mod_eq)
  then show ?thesis by (simp add: word_unat_eq_iff)
qed

lemma toString_hex_inj: "toString_hex xs = toString_hex ys \<Longrightarrow> xs = ys"
proof (induction xs arbitrary: ys)
  case Nil
  then show ?case by (cases ys) (simp_all add: toString_hex_def hex_of_byte_def)
next
  case (Cons x xs)
  show ?case
  proof (cases ys)
    case Nil
    with Cons.prems show ?thesis by (simp add: toString_hex_def hex_of_byte_def)
  next
    case (Cons y ys')
    with Cons.prems have "hex_of_byte x = hex_of_byte y" "toString_hex xs = toString_hex ys'"
      by (simp_all add: toString_hex_def hex_of_byte_def)
    with Cons.IH[of ys'] Cons show ?thesis by (simp add: hex_of_byte_inj)
  qed
qed

lemma chain_append:
  "chain P running (xs @ ys) = chain P (chain P running xs) ys"
  by (induction xs arbitrary: running) (simp_all add: Let_def)

lemma hashed_inputs_append:
  "hashed_inputs P running (xs @ ys) =
     hashed_inputs P running xs @ hashed_inputs P (chain P running xs) ys"
  by (induction xs arbitrary: running) (simp_all add: Let_def)

lemma chain_diverged:
  assumes "r1 \<noteq> r2"
    and "inj_on (sha256 P) (set (hashed_inputs P r1 es) \<union> set (hashed_inputs P r2 es))"
  shows "chain P r1 es \<noteq> chain P r2 es"
  using assms
proof (induction es arbitrary: r1 r2)
  case Nil
  then show ?case by simp
next
  case (Cons e es)
  let ?d = "Buffer_from (JSON_stringify P (make_payload e))"
  let ?S = "set (hashed_inputs P r1 (e # es)) \<union> set (hashed_inputs P r2 (e # es))"
  have mem: "r1 @ ?d \<in> ?S" "r2 @ ?d \<in> ?S" by (simp_all add: Let_def)
  have "r1 @ ?d \<noteq> r2 @ ?d" using Cons.prems(1) by simp
  with Cons.prems(2) mem have ne: "sha256 P (r1 @ ?d) \<noteq> sha256 P (r2 @ ?d)"
    by (meson inj_onD)
  have "inj_on (sha256 P) (set (hashed_inputs P (sha256 P (r1 @ ?d)) es)
                             \<union> set (hashed_inputs P (sha256 P (r2 @ ?d)) es))"
    by (rule inj_on_subset[OF Cons.prems(2)]) (auto simp: Let_def)
  from Cons.IH[OF ne this] show ?case by (simp add: Let_def)
qed

text \<open>What the payload does not see: \<open>error\<close> and \<open>iterations\<close>, the content of
  \<open>critiques\<close> beyond its length, and whether a state is absent or \<open>null\<close>.\<close>

lemma payload_blind:
  "make_payload (e\<lparr>error := x, iterations := y\<rparr>) = make_payload e"
  by (simp add: make_payload_def)

lemma payload_blind_critiques:
  "length cs = length cs' \<Longrightarrow>
   make_payload (e\<lparr>critiques := Some cs\<rparr>) = make_payload (e\<lparr>critiques := Some cs'\<rparr>)"
  "make_payload (e\<lparr>critiques := None\<rparr>) = make_payload (e\<lparr>critiques := Some []\<rparr>)"
  by (simp_all add: make_payload_def)

lemma payload_blind_undefined:
  "make_payload (e\<lparr>inputState := Undefined\<rparr>) = make_payload (e\<lparr>inputState := Null\<rparr>)"
  "make_payload (e\<lparr>draftState := Undefined\<rparr>) = make_payload (e\<lparr>draftState := Null\<rparr>)"
  "make_payload (e\<lparr>finalState := Undefined\<rparr>) = make_payload (e\<lparr>finalState := Null\<rparr>)"
  by (simp_all add: make_payload_def)

section \<open>The claims about the hash chain\<close>

lemma Buffer_from_inj: "Buffer_from s = Buffer_from t \<Longrightarrow> s = t"
proof -
  have "inj (\<lambda>c::char. (of_nat (of_char c) :: byte))"
  proof (rule injI)
    fix a b :: char
    assume "(of_nat (of_char a) :: byte) = of_nat (of_char b)"
    then have "unat (of_nat (of_char a) :: byte) = unat (of_nat (of_char b) :: byte)" by simp
    moreover have "(of_char a :: nat) < 256" "(of_char b :: nat) < 256" by simp_all
    ultimately have "(of_char a :: nat) = of_char b" by (simp add: unat_of_nat)
    then show "a = b" by simp
  qed
  then have "inj (map (\<lambda>c::char. (of_nat (of_char c) :: byte)))" by simp
  then show "Buffer_from s = Buffer_from t \<Longrightarrow> s = t"
    unfolding Buffer_from_def by (rule injD)
qed

text \<open>
  Claim C5. \<open>computeAuditRoot\<close> is the sequential fold of the specification: from
  the empty accumulator, each entry in order replaces the accumulator by the
  digest of the accumulator followed by the serialization of the payload
  (step index, timestamp, phase, number of critiques or 0, and the three states
  with null for an absent one); the result is the accumulator in hexadecimal,
  and the root of the empty history is the empty string, the empty accumulator.
\<close>

theorem computeAuditRoot_is_spec_fold:
  "computeAuditRoot P es = toString_hex (spec_chain_root P es) \<and> computeAuditRoot P [] = ''''"
  by (simp add: computeAuditRoot_def spec_chain_root_def chain_foldl toString_hex_def)

text \<open>
  Claim C2, as stated, fails: two histories that differ only in the field
  \<open>iterations\<close> of one entry have the same root, whatever the platform, because
  \<open>iterations\<close> (like \<open>error\<close> and the content of \<open>critiques\<close>) is not part of
  the payload.
\<close>

theorem chain_sensitivity_counterexample:
  "one_field_apart [accepted_entry] [accepted_entry\<lparr>iterations := Some 1\<rparr>] \<and>
   (\<forall>P. computeAuditRoot P [accepted_entry]
        = computeAuditRoot P [accepted_entry\<lparr>iterations := Some 1\<rparr>])"
  by (simp add: accepted_entry_def differing_fields_def computeAuditRoot_def make_payload_def)

text \<open>
  Claim C2, amended. Two histories that are identical except for one entry have
  different roots whenever the change reaches the serialized payload of that
  entry and SHA-256 has no collision among the byte sequences hashed along the
  two chains.
\<close>

theorem chain_sensitivity:
  assumes "JSON_stringify P (make_payload e) \<noteq> JSON_stringify P (make_payload e')"
    and "inj_on (sha256 P) (set (hashed_inputs P [] (pre @ e # post))
                             \<union> set (hashed_inputs P [] (pre @ e' # post)))"
  shows "computeAuditRoot P (pre @ e # post) \<noteq> computeAuditRoot P (pre @ e' # post)"
proof -
  let ?r = "chain P [] pre"
  let ?d = "Buffer_from (JSON_stringify P (make_payload e))"
  let ?d' = "Buffer_from (JSON_stringify P (make_payload e'))"
  let ?S = "set (hashed_inputs P [] (pre @ e # post)) \<union> set (hashed_inputs P [] (pre @ e' # post))"
  have "?d \<noteq> ?d'" using assms(1) Buffer_from_inj by blast
  then have "?r @ ?d \<noteq> ?r @ ?d'" by simp
  moreover have "?r @ ?d \<in> ?S" "?r @ ?d' \<in> ?S"
    by (simp_all add: hashed_inputs_append Let_def)
  ultimately have ne: "sha256 P (?r @ ?d) \<noteq> sha256 P (?r @ ?d')"
    using assms(2) by (meson inj_onD)
  have "inj_on (sha256 P) (set (hashed_inputs P (sha256 P (?r @ ?d)) post)
                             \<union> set (hashed_inputs P (sha256 P (?r @ ?d')) post))"
    by (rule inj_on_subset[OF assms(2)]) (auto simp: hashed_inputs_append Let_def)
  from chain_diverged[OF ne this]
  have "chain P [] (pre @ e # post) \<noteq> chain P [] (pre @ e' # post)"
    by (simp add: chain_append Let_def)
  then show ?thesis
    unfolding computeAuditRoot_def using toString_hex_inj by blast
qed

theorem chain_sensitivity_witness:
  "JSON_stringify demo_platform (make_payload (accepted_entry\<lparr>stepIndex := 1\<rparr>))
     \<noteq> JSON_stringify demo_platform
         (make_payload (accepted_entry\<lparr>stepIndex := 1, phase := ''revise:accepted''\<rparr>)) \<and>
   inj_on (sha256 demo_platform)
     (set (hashed_inputs demo_platform []
            ([accepted_entry] @ accepted_entry\<lparr>stepIndex := 1\<rparr> # [accepted_entry\<lparr>stepIndex := 2\<rparr>]))
      \<union> set (hashed_inputs demo_platform []
            ([accepted_entry] @ accepted_entry\<lparr>stepIndex := 1, phase := ''revise:accepted''\<rparr>
               # [accepted_entry\<lparr>stepIndex := 2\<rparr>]))) \<and>
   computeAuditRoot demo_platform
     ([accepted_entry] @ accepted_entry\<lparr>stepIndex := 1\<rparr> # [accepted_entry\<lparr>stepIndex := 2\<rparr>])
   \<noteq> computeAuditRoot demo_platform
       ([accepted_entry] @ accepted_entry\<lparr>stepIndex := 1, phase := ''revise:accepted''\<rparr>
          # [accepted_entry\<lparr>stepIndex := 2\<rparr>])"
proof -
  have h1: "JSON_stringify demo_platform (make_payload (accepted_entry\<lparr>stepIndex := 1\<rparr>))
     \<noteq> JSON_stringify demo_platform
         (make_payload (accepted_entry\<lparr>stepIndex := 1, phase := ''revise:accepted''\<rparr>))"
    by (simp add: demo_platform_def make_payload_def accepted_entry_def)
  have h2: "inj_on (sha256 demo_platform)
     (set (hashed_inputs demo_platform []
            ([accepted_entry] @ accepted_entry\<lparr>stepIndex := 1\<rparr> # [accepted_entry\<lparr>stepIndex := 2\<rparr>]))
      \<union> set (hashed_inputs demo_platform []
            ([accepted_entry] @ accepted_entry\<lparr>stepIndex := 1, phase := ''revise:accepted''\<rparr>
               # [accepted_entry\<lparr>stepIndex := 2\<rparr>])))"
    by (simp add: demo_platform_def)
  from h1 h2 chain_sensitivity[OF h1 h2] show ?thesis by simp
qed

section \<open>The critique and revise loop, iteration by iteration\<close>

text \<open>The six ways one pass through the body of the loop can go.\<close>

lemma loop_body_cases:
  obtains
    (crit_hangs) w1 where
      "loop_body H i delay crit rvs s0 d cur cs0 k \<sigma> =
         Stop Hung cs0 (logged (CritiqueCall i cur Hangs) (world \<sigma>) \<sigma>)"
      "crit cur (world \<sigma>) = (Hangs, w1)"
  | (crit_throws) e w1 where
      "loop_body H i delay crit rvs s0 d cur cs0 k \<sigma> =
         Stop (Threw e) cs0
           (push \<lparr> stepIndex = i, ts = Date_now H w1, phase = ''critique:error'',
                   error = Some (error_message e), inputState = s0,
                   draftState = cur, critiques = None, finalState = Undefined,
                   iterations = None \<rparr> (logged (CritiqueCall i cur (Throws e)) w1 \<sigma>))"
      "crit cur (world \<sigma>) = (Throws e, w1)"
  | (accepted) v w1 where
      "no_issues (or_empty v)"
      "loop_body H i delay crit rvs s0 d cur cs0 k \<sigma> =
         Stop Broke (or_empty v)
           ((push \<lparr> stepIndex = i, ts = Date_now H w1,
                    phase = (if k = 0 then ''draft:accepted'' else ''revise:accepted''),
                    error = None, inputState = s0, draftState = d,
                    critiques = Some [], finalState = cur,
                    iterations = Some k \<rparr> (logged (CritiqueCall i cur (Returns v)) w1 \<sigma>))
            \<lparr>state := cur\<rparr>)"
      "crit cur (world \<sigma>) = (Returns v, w1)"
  | (rev_hangs) crs w1 w2 where
      "crs \<noteq> []"
      "loop_body H i delay crit rvs s0 d cur cs0 k \<sigma> =
         Stop Hung (Array crs)
           (logged (ReviseCall i cur crs s0 Hangs) w1
              (logged (CritiqueCall i cur (Returns (Array crs))) w1 \<sigma>))"
      "crit cur (world \<sigma>) = (Returns (Array crs), w1)"
      "rvs cur crs s0 w1 = (Hangs, w2)"
  | (rev_throws) crs e w1 w2 where
      "crs \<noteq> []"
      "loop_body H i delay crit rvs s0 d cur cs0 k \<sigma> =
         Stop (Threw e) (Array crs)
           (push \<lparr> stepIndex = i, ts = Date_now H w2,
                   phase = ''revise:error'', error = Some (error_message e),
                   inputState = s0, draftState = d,
                   critiques = Some crs,
                   finalState = Undefined, iterations = None \<rparr>
              (logged (ReviseCall i cur crs s0 (Throws e)) w2
                 (logged (CritiqueCall i cur (Returns (Array crs))) w1 \<sigma>)))"
      "crit cur (world \<sigma>) = (Returns (Array crs), w1)"
      "rvs cur crs s0 w1 = (Throws e, w2)"
  | (revised) crs cur1 w1 w2 w3 where
      "crs \<noteq> []"
      "loop_body H i delay crit rvs s0 d cur cs0 k \<sigma> =
         Continue cur1 (Array crs)
           ((logged (ReviseCall i cur crs s0 (Returns cur1)) w2
              (logged (CritiqueCall i cur (Returns (Array crs))) w1 \<sigma>))\<lparr>world := w3\<rparr>)"
      "crit cur (world \<sigma>) = (Returns (Array crs), w1)"
      "rvs cur crs s0 w1 = (Returns cur1, w2)"
proof (cases "crit cur (world \<sigma>)")
  case (Pair r w1)
  show ?thesis
  proof (cases r)
    case Hangs
    with Pair show ?thesis using crit_hangs[of w1] by (simp add: loop_body_def Let_def)
  next
    case (Throws e)
    with Pair show ?thesis using crit_throws[of e w1] by (simp add: loop_body_def logged_def Let_def)
  next
    case (Returns v)
    show ?thesis
    proof (cases "no_issues (or_empty v)")
      case True
      with Pair Returns show ?thesis using accepted[of v w1]
        by (simp add: loop_body_def logged_def Let_def)
    next
      case False
      then obtain crs where v: "v = Array crs" and crs: "crs \<noteq> []"
        by (cases v) auto
      show ?thesis
      proof (cases "rvs cur crs s0 w1")
        case (Pair r2 w2)
        note P2 = Pair
        show ?thesis
        proof (cases r2)
          case Hangs
          with P2 \<open>crit cur (world \<sigma>) = (r, w1)\<close> Returns v crs show ?thesis
            using rev_hangs[of crs w1 w2] by (simp add: loop_body_def logged_def Let_def)
        next
          case (Throws e)
          with P2 \<open>crit cur (world \<sigma>) = (r, w1)\<close> Returns v crs show ?thesis
            using rev_throws[of crs e w2 w1] by (simp add: loop_body_def logged_def Let_def)
        next
          case (Returns cur1)
          with P2 \<open>crit cur (world \<sigma>) = (r, w1)\<close> \<open>r = Returns v\<close> v crs show ?thesis
            using revised[of crs cur1 "if delay > 0 then setTimeout H delay w2 else w2" w2 w1]
            by (simp add: loop_body_def logged_def Let_def)
        qed
      qed
    qed
  qed
qed

lemma new_calls_eq: "calls \<sigma>' = calls \<sigma> @ xs \<Longrightarrow> new_calls \<sigma> \<sigma>' = xs"
  by (simp add: new_calls_def)

lemma new_entries_eq: "auditHistory \<sigma>' = auditHistory \<sigma> @ xs \<Longrightarrow> new_entries \<sigma> \<sigma>' = xs"
  by (simp add: new_entries_def)

lemma new_calls_trans:
  "calls \<sigma>1 = calls \<sigma> @ xs \<Longrightarrow> calls \<sigma>' = calls \<sigma>1 @ ys \<Longrightarrow> new_calls \<sigma> \<sigma>' = xs @ ys"
  by (simp add: new_calls_def)

text \<open>The loop, unfolded once.\<close>

lemma loop_done:
  "\<not> int k < max 1 m \<Longrightarrow>
   critique_revise_loop H i m delay crit rvs s0 d cur cs0 k \<sigma> = (Exhausted, cur, cs0, k, \<sigma>)"
  by (simp add: critique_revise_loop.simps[of H i m delay crit rvs s0 d cur cs0 k \<sigma>])

lemma loop_stop:
  "int k < max 1 m \<Longrightarrow> loop_body H i delay crit rvs s0 d cur cs0 k \<sigma> = Stop ex cs1 \<sigma>1 \<Longrightarrow>
   critique_revise_loop H i m delay crit rvs s0 d cur cs0 k \<sigma> = (ex, cur, cs1, k, \<sigma>1)"
  by (simp add: critique_revise_loop.simps[of H i m delay crit rvs s0 d cur cs0 k \<sigma>])

lemma loop_continue:
  "int k < max 1 m \<Longrightarrow> loop_body H i delay crit rvs s0 d cur cs0 k \<sigma> = Continue cur1 cs1 \<sigma>1 \<Longrightarrow>
   critique_revise_loop H i m delay crit rvs s0 d cur cs0 k \<sigma> =
   critique_revise_loop H i m delay crit rvs s0 d cur1 cs1 (k + 1) \<sigma>1"
  by (simp add: critique_revise_loop.simps[of H i m delay crit rvs s0 d cur cs0 k \<sigma>])

text \<open>A big-step reading of the loop: the rule of induction the proofs below use.\<close>

lemma loop_induct [consumes 1, case_names finished stopped continued]:
  assumes run: "critique_revise_loop H i m delay crit rvs s0 d cur cs0 k \<sigma> = (ex, cur', cs', k', \<sigma>')"
    and dn: "\<And>cur cs0 k \<sigma>. \<not> int k < max 1 m \<Longrightarrow> P cur cs0 k \<sigma> Exhausted cur cs0 k \<sigma>"
    and st: "\<And>cur cs0 k \<sigma> ex cs1 \<sigma>1. int k < max 1 m \<Longrightarrow>
               loop_body H i delay crit rvs s0 d cur cs0 k \<sigma> = Stop ex cs1 \<sigma>1 \<Longrightarrow>
               P cur cs0 k \<sigma> ex cur cs1 k \<sigma>1"
    and ct: "\<And>cur cs0 k \<sigma> cur1 cs1 \<sigma>1 ex cur' cs' k' \<sigma>'. int k < max 1 m \<Longrightarrow>
               loop_body H i delay crit rvs s0 d cur cs0 k \<sigma> = Continue cur1 cs1 \<sigma>1 \<Longrightarrow>
               critique_revise_loop H i m delay crit rvs s0 d cur1 cs1 (k + 1) \<sigma>1
                 = (ex, cur', cs', k', \<sigma>') \<Longrightarrow>
               P cur1 cs1 (k + 1) \<sigma>1 ex cur' cs' k' \<sigma>' \<Longrightarrow>
               P cur cs0 k \<sigma> ex cur' cs' k' \<sigma>'"
  shows "P cur cs0 k \<sigma> ex cur' cs' k' \<sigma>'"
  using run
proof (induction n \<equiv> "nat (max 1 m - int k)" arbitrary: cur cs0 k \<sigma>)
  case 0
  then have F: "\<not> int k < max 1 m" by linarith
  with "0.prems" dn[OF F, of cur cs0 \<sigma>] show ?case
    by (simp add: loop_done)
next
  case (Suc n)
  then have T: "int k < max 1 m" by linarith
  show ?case
  proof (cases "loop_body H i delay crit rvs s0 d cur cs0 k \<sigma>")
    case (Stop ex1 cs1 \<sigma>1)
    with Suc.prems T st[OF T Stop] show ?thesis
      by (simp add: loop_stop)
  next
    case (Continue cur1 cs1 \<sigma>1)
    from Suc.prems have rec: "critique_revise_loop H i m delay crit rvs s0 d cur1 cs1 (k + 1) \<sigma>1
               = (ex, cur', cs', k', \<sigma>')"
      by (simp add: loop_continue[OF T Continue])
    from Suc.hyps(2) have "n = nat (max 1 m - int (k + 1))" by linarith
    from Suc.hyps(1)[OF this rec] ct[OF T Continue rec] show ?thesis
      by blast
  qed
qed

text \<open>What one pass does to the log, the audit history and the state.\<close>

lemma body_Continue:
  assumes "loop_body H i delay crit rvs s0 d cur cs0 k \<sigma> = Continue cur1 cs1 \<sigma>1"
  obtains crs where "crs \<noteq> []" "cs1 = Array crs"
    "calls \<sigma>1 = calls \<sigma> @ [CritiqueCall i cur (Returns (Array crs)),
                            ReviseCall i cur crs s0 (Returns cur1)]"
    "auditHistory \<sigma>1 = auditHistory \<sigma>" "state \<sigma>1 = state \<sigma>"
proof (cases rule: loop_body_cases[of H i delay crit rvs s0 d cur cs0 k \<sigma>])
  case (revised crs c1 w1 w2 w3)
  with assms have "cur1 = c1" "cs1 = Array crs"
    "\<sigma>1 = (logged (ReviseCall i cur crs s0 (Returns c1)) w2
              (logged (CritiqueCall i cur (Returns (Array crs))) w1 \<sigma>))\<lparr>world := w3\<rparr>"
    by auto
  with revised(1) show ?thesis by (intro that[of crs]) (simp_all add: logged_def push_def)
qed (use assms in simp_all)

lemma body_Stop:
  assumes "loop_body H i delay crit rvs s0 d cur cs0 k \<sigma> = Stop ex cs1 \<sigma>1"
  obtains
    (broke) v where "ex = Broke" "no_issues (or_empty v)" "cs1 = or_empty v"
      "calls \<sigma>1 = calls \<sigma> @ [CritiqueCall i cur (Returns v)]"
      "auditHistory \<sigma>1 = auditHistory \<sigma> @
         [\<lparr> stepIndex = i, ts = Date_now H (world \<sigma>1),
             phase = (if k = 0 then ''draft:accepted'' else ''revise:accepted''),
             error = None, inputState = s0, draftState = d, critiques = Some [],
             finalState = cur, iterations = Some k \<rparr>]"
      "state \<sigma>1 = cur"
  | (crit_throws) e where "ex = Threw e"
      "calls \<sigma>1 = calls \<sigma> @ [CritiqueCall i cur (Throws e)]"
      "auditHistory \<sigma>1 = auditHistory \<sigma> @
         [\<lparr> stepIndex = i, ts = Date_now H (world \<sigma>1), phase = ''critique:error'',
             error = Some (error_message e), inputState = s0, draftState = cur,
             critiques = None, finalState = Undefined, iterations = None \<rparr>]"
      "state \<sigma>1 = state \<sigma>"
  | (rev_throws) e crs where "ex = Threw e" "crs \<noteq> []"
      "calls \<sigma>1 = calls \<sigma> @ [CritiqueCall i cur (Returns (Array crs)),
                              ReviseCall i cur crs s0 (Throws e)]"
      "auditHistory \<sigma>1 = auditHistory \<sigma> @
         [\<lparr> stepIndex = i, ts = Date_now H (world \<sigma>1), phase = ''revise:error'',
             error = Some (error_message e), inputState = s0, draftState = d,
             critiques = Some crs, finalState = Undefined, iterations = None \<rparr>]"
      "state \<sigma>1 = state \<sigma>"
  | (crit_hangs) "ex = Hung"
      "calls \<sigma>1 = calls \<sigma> @ [CritiqueCall i cur Hangs]"
      "auditHistory \<sigma>1 = auditHistory \<sigma>" "state \<sigma>1 = state \<sigma>"
  | (rev_hangs) crs where "ex = Hung" "crs \<noteq> []"
      "calls \<sigma>1 = calls \<sigma> @ [CritiqueCall i cur (Returns (Array crs)),
                              ReviseCall i cur crs s0 Hangs]"
      "auditHistory \<sigma>1 = auditHistory \<sigma>" "state \<sigma>1 = state \<sigma>"
proof (cases rule: loop_body_cases[of H i delay crit rvs s0 d cur cs0 k \<sigma>])
  case (crit_hangs w1)
  with assms have "ex = Hung"
    "\<sigma>1 = logged (CritiqueCall i cur Hangs) (world \<sigma>) \<sigma>"
    by auto
  then show ?thesis by (intro that(4)) (simp_all add: logged_def push_def)
next
  case (crit_throws e w1)
  with assms have "ex = Threw e"
    "\<sigma>1 = push \<lparr> stepIndex = i, ts = Date_now H w1, phase = ''critique:error'',
                   error = Some (error_message e), inputState = s0,
                   draftState = cur, critiques = None, finalState = Undefined,
                   iterations = None \<rparr> (logged (CritiqueCall i cur (Throws e)) w1 \<sigma>)"
    by auto
  then show ?thesis by (intro that(2)[of e]) (simp_all add: logged_def push_def)
next
  case (accepted v w1)
  with assms have "ex = Broke" "cs1 = or_empty v"
    "\<sigma>1 = (push \<lparr> stepIndex = i, ts = Date_now H w1,
                    phase = (if k = 0 then ''draft:accepted'' else ''revise:accepted''),
                    error = None, inputState = s0, draftState = d,
                    critiques = Some [], finalState = cur,
                    iterations = Some k \<rparr> (logged (CritiqueCall i cur (Returns v)) w1 \<sigma>))
            \<lparr>state := cur\<rparr>"
    by auto
  with accepted(1) show ?thesis by (intro that(1)[of v]) (simp_all add: logged_def push_def)
next
  case (rev_hangs crs w1 w2)
  with assms have "ex = Hung"
    "\<sigma>1 = logged (ReviseCall i cur crs s0 Hangs) w1
              (logged (CritiqueCall i cur (Returns (Array crs))) w1 \<sigma>)"
    by auto
  with rev_hangs(1) show ?thesis by (intro that(5)[of crs]) (simp_all add: logged_def push_def)
next
  case (rev_throws crs e w1 w2)
  with assms have "ex = Threw e"
    "\<sigma>1 = push \<lparr> stepIndex = i, ts = Date_now H w2,
                   phase = ''revise:error'', error = Some (error_message e),
                   inputState = s0, draftState = d,
                   critiques = Some crs,
                   finalState = Undefined, iterations = None \<rparr>
              (logged (ReviseCall i cur crs s0 (Throws e)) w2
                 (logged (CritiqueCall i cur (Returns (Array crs))) w1 \<sigma>))"
    by auto
  with rev_throws(1) show ?thesis
    by (intro that(3)[of e crs]) (simp_all add: logged_def push_def)
next
  case (revised crs cur1 w1 w2 w3)
  with assms show ?thesis by simp
qed

section \<open>The loop as a whole\<close>

lemma last_critique_result_append:
  "last_critique_result (xs @ ys) =
     (case last_critique_result ys of Some r \<Rightarrow> Some r | None \<Rightarrow> last_critique_result xs)"
  by (induction xs) (auto split: option.splits)

lemma loop_calls:
  assumes "critique_revise_loop H i m delay crit rvs s0 d cur cs0 k \<sigma> = (ex, cur', cs', k', \<sigma>')"
  shows "\<exists>new. calls \<sigma>' = calls \<sigma> @ new \<and>
           (\<forall>x\<in>set new. call_index x = i \<and> (is_critique_call x \<or> is_revise_call x)) \<and>
           length (filter is_critique_call new) \<le> nat (max 1 m) - k \<and>
           length (filter is_revise_call new) \<le> nat (max 1 m) - k"
  using assms
proof (induction rule: loop_induct)
  case (finished cur cs0 k \<sigma>)
  show ?case by simp
next
  case (stopped cur cs0 k \<sigma> ex cs1 \<sigma>1)
  from stopped(1) have pos: "1 \<le> nat (max 1 m) - k" by linarith
  from stopped(2) show ?case
    by (cases rule: body_Stop) (use pos in auto)
next
  case (continued cur cs0 k \<sigma> cur1 cs1 \<sigma>1 ex cur' cs' k' \<sigma>')
  from continued(1) have pos: "Suc (nat (max 1 m) - (k + 1)) \<le> nat (max 1 m) - k" by linarith
  from continued(4) obtain new1 where n1: "calls \<sigma>' = calls \<sigma>1 @ new1"
    "\<forall>x\<in>set new1. call_index x = i \<and> (is_critique_call x \<or> is_revise_call x)"
    "length (filter is_critique_call new1) \<le> nat (max 1 m) - (k + 1)"
    "length (filter is_revise_call new1) \<le> nat (max 1 m) - (k + 1)"
    by blast
  from continued(2) obtain crs where b: "crs \<noteq> []" "cs1 = Array crs"
    "calls \<sigma>1 = calls \<sigma> @ [CritiqueCall i cur (Returns (Array crs)),
                            ReviseCall i cur crs s0 (Returns cur1)]"
    by (rule body_Continue)
  let ?new = "[CritiqueCall i cur (Returns (Array crs)),
               ReviseCall i cur crs s0 (Returns cur1)] @ new1"
  have "calls \<sigma>' = calls \<sigma> @ ?new" using n1(1) b(3) by simp
  moreover have "\<forall>x\<in>set ?new. call_index x = i \<and> (is_critique_call x \<or> is_revise_call x)"
    using n1(2) by simp
  moreover have "length (filter is_critique_call ?new) \<le> nat (max 1 m) - k"
    using n1(3) pos by simp
  moreover have "length (filter is_revise_call ?new) \<le> nat (max 1 m) - k"
    using n1(4) pos by simp
  ultimately show ?case by blast
qed

lemma has_issues_iff: "has_issues v \<longleftrightarrow> \<not> no_issues v"
  by (cases v) auto

lemma has_issues_Array: "has_issues v \<Longrightarrow> v = Array (issues_of v) \<and> issues_of v \<noteq> []"
  by (cases v) auto

lemma loop_entries:
  assumes "critique_revise_loop H i m delay crit rvs s0 d cur cs0 k \<sigma> = (ex, cur', cs', k', \<sigma>')"
  shows "\<exists>ents. auditHistory \<sigma>' = auditHistory \<sigma> @ ents \<and>
           (\<forall>e\<in>set ents. stepIndex e = i) \<and> length ents \<le> 1"
  using assms
proof (induction rule: loop_induct)
  case (finished cur cs0 k \<sigma>)
  show ?case by simp
next
  case (stopped cur cs0 k \<sigma> ex cs1 \<sigma>1)
  from stopped(2) show ?case
    by (cases rule: body_Stop) auto
next
  case (continued cur cs0 k \<sigma> cur1 cs1 \<sigma>1 ex cur' cs' k' \<sigma>')
  from continued(2) have "auditHistory \<sigma>1 = auditHistory \<sigma>"
    by (rule body_Continue)
  with continued(4) show ?case by simp
qed

lemma loop_last_critique:
  assumes "critique_revise_loop H i m delay crit rvs s0 d cur cs0 k \<sigma> = (ex, cur', cs', k', \<sigma>')"
    and "int k < max 1 m"
  shows "\<exists>new r. calls \<sigma>' = calls \<sigma> @ new \<and> last_critique_result new = Some r \<and>
           ((\<exists>v. r = Returns v \<and> no_issues (or_empty v)) \<longleftrightarrow> ex = Broke)"
  using assms
proof (induction rule: loop_induct)
  case (finished cur cs0 k \<sigma>)
  then show ?case by simp
next
  case (stopped cur cs0 k \<sigma> ex cs1 \<sigma>1)
  from stopped(2) show ?case
  proof (cases rule: body_Stop)
    case (broke v)
    then show ?thesis by auto
  next
    case (crit_throws e)
    then show ?thesis by auto
  next
    case (rev_throws e crs)
    then show ?thesis by auto
  next
    case crit_hangs
    then show ?thesis by auto
  next
    case (rev_hangs crs)
    then show ?thesis by auto
  qed
next
  case (continued cur cs0 k \<sigma> cur1 cs1 \<sigma>1 ex cur' cs' k' \<sigma>')
  from continued(2) obtain crs where b: "crs \<noteq> []" "cs1 = Array crs"
    "calls \<sigma>1 = calls \<sigma> @ [CritiqueCall i cur (Returns (Array crs)),
                            ReviseCall i cur crs s0 (Returns cur1)]"
    by (rule body_Continue)
  show ?case
  proof (cases "int (k + 1) < max 1 m")
    case True
    from continued(4)[OF True] obtain new1 r where n1: "calls \<sigma>' = calls \<sigma>1 @ new1"
      "last_critique_result new1 = Some r"
      "(\<exists>v. r = Returns v \<and> no_issues (or_empty v)) \<longleftrightarrow> ex = Broke"
      by blast
    let ?new = "[CritiqueCall i cur (Returns (Array crs)),
                 ReviseCall i cur crs s0 (Returns cur1)] @ new1"
    have "calls \<sigma>' = calls \<sigma> @ ?new" using n1(1) b(3) by simp
    moreover have "last_critique_result ?new = Some r"
      using n1(2) by (simp add: last_critique_result_append)
    ultimately show ?thesis using n1(3) by blast
  next
    case False
    with continued(3) have e: "ex = Exhausted" "\<sigma>' = \<sigma>1"
      by (simp_all add: loop_done)
    let ?new = "[CritiqueCall i cur (Returns (Array crs)),
                 ReviseCall i cur crs s0 (Returns cur1)]"
    have "calls \<sigma>' = calls \<sigma> @ ?new" using e b(3) by simp
    moreover have "last_critique_result ?new = Some (Returns (Array crs))" by simp
    moreover have "\<not> (\<exists>v. Returns (Array crs) = Returns v \<and> no_issues (or_empty v))"
      using b(1) by auto
    ultimately show ?thesis using e(1) by blast
  qed
qed

lemma loop_Exhausted:
  assumes "critique_revise_loop H i m delay crit rvs s0 d cur cs0 k \<sigma>
             = (Exhausted, cur', cs', k', \<sigma>')"
    and "int k < max 1 m"
  shows "k' = nat (max 1 m) \<and> auditHistory \<sigma>' = auditHistory \<sigma> \<and> state \<sigma>' = state \<sigma> \<and>
         (\<exists>pre c crs. calls \<sigma>' = calls \<sigma> @ pre @
                          [CritiqueCall i c (Returns (Array crs)),
                           ReviseCall i c crs s0 (Returns cur')] \<and>
                       crs \<noteq> [] \<and> cs' = Array crs \<and>
                       Suc (length (filter is_critique_call pre)) = nat (max 1 m) - k \<and>
                       Suc (length (filter is_revise_call pre)) = nat (max 1 m) - k)"
proof -
  define ex where "ex = Exhausted"
  with assms(1) have run: "critique_revise_loop H i m delay crit rvs s0 d cur cs0 k \<sigma>
             = (ex, cur', cs', k', \<sigma>')" by simp
  from run ex_def assms(2) show ?thesis
  proof (induction rule: loop_induct)
    case (finished cur cs0 k \<sigma>)
    then show ?case by simp
  next
    case (stopped cur cs0 k \<sigma> ex cs1 \<sigma>1)
    from stopped(2) stopped(3) show ?case
      by (cases rule: body_Stop) auto
  next
    case (continued cur cs0 k \<sigma> cur1 cs1 \<sigma>1 ex cur' cs' k' \<sigma>')
    from continued(2) obtain crs where b: "crs \<noteq> []" "cs1 = Array crs"
      "calls \<sigma>1 = calls \<sigma> @ [CritiqueCall i cur (Returns (Array crs)),
                              ReviseCall i cur crs s0 (Returns cur1)]"
      "auditHistory \<sigma>1 = auditHistory \<sigma>" "state \<sigma>1 = state \<sigma>"
      by (rule body_Continue)
    show ?case
    proof (cases "int (k + 1) < max 1 m")
      case True
      from continued(4)[OF continued(5) True] obtain pre c crs1 where
        ih: "k' = nat (max 1 m)" "auditHistory \<sigma>' = auditHistory \<sigma>1" "state \<sigma>' = state \<sigma>1"
          "calls \<sigma>' = calls \<sigma>1 @ pre @ [CritiqueCall i c (Returns (Array crs1)),
                           ReviseCall i c crs1 s0 (Returns cur')]"
          "crs1 \<noteq> []" "cs' = Array crs1"
          "Suc (length (filter is_critique_call pre)) = nat (max 1 m) - (k + 1)"
          "Suc (length (filter is_revise_call pre)) = nat (max 1 m) - (k + 1)"
        by blast
      let ?pre = "[CritiqueCall i cur (Returns (Array crs)),
                   ReviseCall i cur crs s0 (Returns cur1)] @ pre"
      have c1: "length (filter is_critique_call ?pre)
                           = Suc (length (filter is_critique_call pre))"
        and c2: "length (filter is_revise_call ?pre) = Suc (length (filter is_revise_call pre))"
        by simp_all
      have "\<exists>pre c crs. calls \<sigma>' = calls \<sigma> @ pre @
                          [CritiqueCall i c (Returns (Array crs)),
                           ReviseCall i c crs s0 (Returns cur')] \<and>
                       crs \<noteq> [] \<and> cs' = Array crs \<and>
                       Suc (length (filter is_critique_call pre)) = nat (max 1 m) - k \<and>
                       Suc (length (filter is_revise_call pre)) = nat (max 1 m) - k"
      proof (intro exI conjI)
        show "calls \<sigma>' = calls \<sigma> @ ?pre @ [CritiqueCall i c (Returns (Array crs1)),
                           ReviseCall i c crs1 s0 (Returns cur')]"
          using ih(4) b(3) by simp
        show "crs1 \<noteq> []" by fact
        show "cs' = Array crs1" by fact
        show "Suc (length (filter is_critique_call ?pre)) = nat (max 1 m) - k"
          using ih(7) True unfolding c1 by linarith
        show "Suc (length (filter is_revise_call ?pre)) = nat (max 1 m) - k"
          using ih(8) True unfolding c2 by linarith
      qed
      with ih(1,2,3) b(4,5) show ?thesis by simp
    next
      case False
      with continued(3) have e: "cur' = cur1" "cs' = cs1" "k' = k + 1" "\<sigma>' = \<sigma>1"
        by (simp_all add: loop_done)
      from False continued(1) have ar: "nat (max 1 m) = k + 1" "nat (max 1 m) - k = Suc 0"
        by linarith+
      have "\<exists>pre c crs. calls \<sigma>' = calls \<sigma> @ pre @
                          [CritiqueCall i c (Returns (Array crs)),
                           ReviseCall i c crs s0 (Returns cur')] \<and>
                       crs \<noteq> [] \<and> cs' = Array crs \<and>
                       Suc (length (filter is_critique_call pre)) = nat (max 1 m) - k \<and>
                       Suc (length (filter is_revise_call pre)) = nat (max 1 m) - k"
      proof (intro exI conjI)
        show "calls \<sigma>' = calls \<sigma> @ [] @ [CritiqueCall i cur (Returns (Array crs)),
                              ReviseCall i cur crs s0 (Returns cur')]"
          using e b(3) by simp
        show "crs \<noteq> []" by fact
        show "cs' = Array crs" using e b(2) by simp
        show "Suc (length (filter is_critique_call ([] :: ('a, 'b) invocation list)))
                = nat (max 1 m) - k" using ar by simp
        show "Suc (length (filter is_revise_call ([] :: ('a, 'b) invocation list)))
                = nat (max 1 m) - k" using ar by simp
      qed
      with e b(4,5) ar(1) show ?thesis by simp
    qed
  qed
qed

lemma loop_Broke:
  assumes "critique_revise_loop H i m delay crit rvs s0 d cur cs0 k \<sigma>
             = (Broke, cur', cs', k', \<sigma>')"
  shows "k \<le> k' \<and> int k' < max 1 m \<and> no_issues cs' \<and> state \<sigma>' = cur' \<and>
         auditHistory \<sigma>' = auditHistory \<sigma> @
           [\<lparr> stepIndex = i, ts = Date_now H (world \<sigma>'),
               phase = (if k' = 0 then ''draft:accepted'' else ''revise:accepted''),
               error = None, inputState = s0, draftState = d, critiques = Some [],
               finalState = cur', iterations = Some k' \<rparr>] \<and>
         (\<exists>pre v. calls \<sigma>' = calls \<sigma> @ pre @ [CritiqueCall i cur' (Returns v)] \<and>
                  no_issues (or_empty v) \<and>
                  length (filter is_critique_call pre) = k' - k \<and>
                  length (filter is_revise_call pre) = k' - k)"
proof -
  define ex where "ex = Broke"
  with assms(1) have run: "critique_revise_loop H i m delay crit rvs s0 d cur cs0 k \<sigma>
             = (ex, cur', cs', k', \<sigma>')" by simp
  from run ex_def show ?thesis
  proof (induction rule: loop_induct)
    case (finished cur cs0 k \<sigma>)
    then show ?case by simp
  next
    case (stopped cur cs0 k \<sigma> ex cs1 \<sigma>1)
    from stopped(2) show ?case
    proof (cases rule: body_Stop)
      case (broke v)
      have "\<exists>pre va. calls \<sigma>1 = calls \<sigma> @ pre @ [CritiqueCall i cur (Returns va)] \<and>
                  no_issues (or_empty va) \<and>
                  length (filter is_critique_call pre) = k - k \<and>
                  length (filter is_revise_call pre) = k - k"
      proof (intro exI conjI)
        show "calls \<sigma>1 = calls \<sigma> @ [] @ [CritiqueCall i cur (Returns v)]"
          using broke(4) by simp
        show "no_issues (or_empty v)" by fact
      qed simp_all
      with broke stopped(1) show ?thesis by simp
    qed (use stopped(3) in simp_all)
  next
    case (continued cur cs0 k \<sigma> cur1 cs1 \<sigma>1 ex cur' cs' k' \<sigma>')
    from continued(2) obtain crs where b: "crs \<noteq> []" "cs1 = Array crs"
      "calls \<sigma>1 = calls \<sigma> @ [CritiqueCall i cur (Returns (Array crs)),
                              ReviseCall i cur crs s0 (Returns cur1)]"
      "auditHistory \<sigma>1 = auditHistory \<sigma>" "state \<sigma>1 = state \<sigma>"
      by (rule body_Continue)
    from continued(4)[OF continued(5)] obtain pre v where
      ih: "k + 1 \<le> k'" "int k' < max 1 m" "no_issues cs'" "state \<sigma>' = cur'"
        "auditHistory \<sigma>' = auditHistory \<sigma>1 @
           [\<lparr> stepIndex = i, ts = Date_now H (world \<sigma>'),
               phase = (if k' = 0 then ''draft:accepted'' else ''revise:accepted''),
               error = None, inputState = s0, draftState = d, critiques = Some [],
               finalState = cur', iterations = Some k' \<rparr>]"
        "calls \<sigma>' = calls \<sigma>1 @ pre @ [CritiqueCall i cur' (Returns v)]"
        "no_issues (or_empty v)"
        "length (filter is_critique_call pre) = k' - (k + 1)"
        "length (filter is_revise_call pre) = k' - (k + 1)"
      by blast
    let ?pre = "[CritiqueCall i cur (Returns (Array crs)),
                 ReviseCall i cur crs s0 (Returns cur1)] @ pre"
    have c1: "length (filter is_critique_call ?pre) = Suc (length (filter is_critique_call pre))"
      and c2: "length (filter is_revise_call ?pre) = Suc (length (filter is_revise_call pre))"
      by simp_all
    have "\<exists>pre v. calls \<sigma>' = calls \<sigma> @ pre @ [CritiqueCall i cur' (Returns v)] \<and>
                  no_issues (or_empty v) \<and>
                  length (filter is_critique_call pre) = k' - k \<and>
                  length (filter is_revise_call pre) = k' - k"
    proof (intro exI conjI)
      show "calls \<sigma>' = calls \<sigma> @ ?pre @ [CritiqueCall i cur' (Returns v)]"
        using ih(6) b(3) by simp
      show "no_issues (or_empty v)" by fact
      show "length (filter is_critique_call ?pre) = k' - k"
        using ih(8) ih(1) unfolding c1 by linarith
      show "length (filter is_revise_call ?pre) = k' - k"
        using ih(9) ih(1) unfolding c2 by linarith
    qed
    with ih(1,2,3,4,5) b(4) show ?case by simp
  qed
qed

lemma loop_Threw:
  assumes "critique_revise_loop H i m delay crit rvs s0 d cur cs0 k \<sigma>
             = (Threw e, cur', cs', k', \<sigma>')"
  shows "state \<sigma>' = state \<sigma> \<and>
         (\<exists>ent. auditHistory \<sigma>' = auditHistory \<sigma> @ [ent] \<and> stepIndex ent = i \<and>
                (phase ent = ''critique:error'' \<or> phase ent = ''revise:error'') \<and>
                error ent = Some (error_message e))"
proof -
  define ex where "ex = Threw e"
  with assms(1) have run: "critique_revise_loop H i m delay crit rvs s0 d cur cs0 k \<sigma>
             = (ex, cur', cs', k', \<sigma>')" by simp
  from run ex_def show ?thesis
  proof (induction rule: loop_induct)
    case (finished cur cs0 k \<sigma>)
    then show ?case by simp
  next
    case (stopped cur cs0 k \<sigma> ex cs1 \<sigma>1)
    from stopped(2) stopped(3) show ?case
      by (cases rule: body_Stop) simp_all
  next
    case (continued cur cs0 k \<sigma> cur1 cs1 \<sigma>1 ex cur' cs' k' \<sigma>')
    from continued(2) have "auditHistory \<sigma>1 = auditHistory \<sigma>" "state \<sigma>1 = state \<sigma>"
      by (rule body_Continue, simp)+
    with continued(4)[OF continued(5)] show ?case by simp
  qed
qed

lemma loop_Hung:
  assumes "critique_revise_loop H i m delay crit rvs s0 d cur cs0 k \<sigma>
             = (Hung, cur', cs', k', \<sigma>')"
  shows "state \<sigma>' = state \<sigma> \<and> auditHistory \<sigma>' = auditHistory \<sigma>"
proof -
  define ex where "ex = Hung"
  with assms(1) have run: "critique_revise_loop H i m delay crit rvs s0 d cur cs0 k \<sigma>
             = (ex, cur', cs', k', \<sigma>')" by simp
  from run ex_def show ?thesis
  proof (induction rule: loop_induct)
    case (finished cur cs0 k \<sigma>)
    then show ?case by simp
  next
    case (stopped cur cs0 k \<sigma> ex cs1 \<sigma>1)
    from stopped(2) stopped(3) show ?case
      by (cases rule: body_Stop) simp_all
  next
    case (continued cur cs0 k \<sigma> cur1 cs1 \<sigma>1 ex cur' cs' k' \<sigma>')
    from continued(2) have "auditHistory \<sigma>1 = auditHistory \<sigma>" "state \<sigma>1 = state \<sigma>"
      by (rule body_Continue, simp)+
    with continued(4)[OF continued(5)] show ?case by simp
  qed
qed

section \<open>One step\<close>

lemma budget_max: "nat (max 1 (case maxIterations s of None \<Rightarrow> 3 | Some m \<Rightarrow> m)) = iteration_budget s"
  by (simp add: iteration_budget_def)

lemma budget_pos: "0 < iteration_budget s"
  by (simp add: iteration_budget_def)

lemma run_step_cases:
  assumes "run_step H i el \<sigma> = (out, \<sigma>')"
  obtains
    (invalid)
      "el = None \<or> (\<exists>s. el = Some s \<and> (draft s = None \<or> critique s = None \<or> revise s = None))"
      "out = Throws (TypeError (invalid_message i))"
      "\<sigma>' = push \<lparr> stepIndex = i, ts = Date_now H (world \<sigma>), phase = ''invalid'',
                     error = Some (invalid_message i), inputState = state \<sigma>,
                     draftState = Undefined, critiques = None, finalState = Undefined,
                     iterations = None \<rparr> \<sigma>"
  | (draft_hangs) s dr crit rvs w1 where
      "el = Some s" "draft s = Some dr" "critique s = Some crit" "revise s = Some rvs"
      "dr (state \<sigma>) (world \<sigma>) = (Hangs, w1)"
      "out = Hangs"
      "\<sigma>' = logged (DraftCall i (state \<sigma>) Hangs) (world \<sigma>) \<sigma>"
  | (draft_throws) s dr crit rvs e w1 where
      "el = Some s" "draft s = Some dr" "critique s = Some crit" "revise s = Some rvs"
      "dr (state \<sigma>) (world \<sigma>) = (Throws e, w1)"
      "out = Throws e"
      "\<sigma>' = push \<lparr> stepIndex = i, ts = Date_now H w1,
                     phase = ''draft:error'', error = Some (error_message e),
                     inputState = state \<sigma>, draftState = Undefined,
                     critiques = None, finalState = Undefined,
                     iterations = None \<rparr> (logged (DraftCall i (state \<sigma>) (Throws e)) w1 \<sigma>)"
  | (loop_threw) s dr crit rvs ds w1 e cur' cs' k' where
      "el = Some s" "draft s = Some dr" "critique s = Some crit" "revise s = Some rvs"
      "dr (state \<sigma>) (world \<sigma>) = (Returns ds, w1)"
      "critique_revise_loop H i (case maxIterations s of None \<Rightarrow> 3 | Some m \<Rightarrow> m)
         (case delayMs s of None \<Rightarrow> 0 | Some d \<Rightarrow> d) crit rvs (state \<sigma>) ds ds (Array []) 0
         (logged (DraftCall i (state \<sigma>) (Returns ds)) w1 \<sigma>) = (Threw e, cur', cs', k', \<sigma>')"
      "out = Throws e"
  | (loop_hung) s dr crit rvs ds w1 cur' cs' k' where
      "el = Some s" "draft s = Some dr" "critique s = Some crit" "revise s = Some rvs"
      "dr (state \<sigma>) (world \<sigma>) = (Returns ds, w1)"
      "critique_revise_loop H i (case maxIterations s of None \<Rightarrow> 3 | Some m \<Rightarrow> m)
         (case delayMs s of None \<Rightarrow> 0 | Some d \<Rightarrow> d) crit rvs (state \<sigma>) ds ds (Array []) 0
         (logged (DraftCall i (state \<sigma>) (Returns ds)) w1 \<sigma>) = (Hung, cur', cs', k', \<sigma>')"
      "out = Hangs"
  | (loop_broke) s dr crit rvs ds w1 cur' cs' k' where
      "el = Some s" "draft s = Some dr" "critique s = Some crit" "revise s = Some rvs"
      "dr (state \<sigma>) (world \<sigma>) = (Returns ds, w1)"
      "critique_revise_loop H i (case maxIterations s of None \<Rightarrow> 3 | Some m \<Rightarrow> m)
         (case delayMs s of None \<Rightarrow> 0 | Some d \<Rightarrow> d) crit rvs (state \<sigma>) ds ds (Array []) 0
         (logged (DraftCall i (state \<sigma>) (Returns ds)) w1 \<sigma>) = (Broke, cur', cs', k', \<sigma>')"
      "out = Returns ()"
  | (loop_exhausted) s dr crit rvs ds w1 cur' cs' k' \<sigma>2 where
      "el = Some s" "draft s = Some dr" "critique s = Some crit" "revise s = Some rvs"
      "dr (state \<sigma>) (world \<sigma>) = (Returns ds, w1)"
      "critique_revise_loop H i (case maxIterations s of None \<Rightarrow> 3 | Some m \<Rightarrow> m)
         (case delayMs s of None \<Rightarrow> 0 | Some d \<Rightarrow> d) crit rvs (state \<sigma>) ds ds (Array []) 0
         (logged (DraftCall i (state \<sigma>) (Returns ds)) w1 \<sigma>) = (Exhausted, cur', cs', k', \<sigma>2)"
      "out = Returns ()"
      "\<sigma>' = (push \<lparr> stepIndex = i, ts = Date_now H (world \<sigma>2),
                      phase = ''revise:capped'', error = None,
                      inputState = state \<sigma>, draftState = ds,
                      critiques = Some (issues_of cs'), finalState = cur',
                      iterations = Some k' \<rparr> \<sigma>2) \<lparr>state := cur'\<rparr>"
proof (cases el)
  case None
  with assms have "out = Throws (TypeError (invalid_message i))"
    "\<sigma>' = push \<lparr> stepIndex = i, ts = Date_now H (world \<sigma>), phase = ''invalid'',
                     error = Some (invalid_message i), inputState = state \<sigma>,
                     draftState = Undefined, critiques = None, finalState = Undefined,
                     iterations = None \<rparr> \<sigma>"
    by (auto simp: run_step_def empty_object_def)
  with None show ?thesis by (intro invalid) simp_all
next
  case (Some s)
  show ?thesis
  proof (cases "draft s = None \<or> critique s = None \<or> revise s = None")
    case True
    with assms Some have "out = Throws (TypeError (invalid_message i))"
      "\<sigma>' = push \<lparr> stepIndex = i, ts = Date_now H (world \<sigma>), phase = ''invalid'',
                     error = Some (invalid_message i), inputState = state \<sigma>,
                     draftState = Undefined, critiques = None, finalState = Undefined,
                     iterations = None \<rparr> \<sigma>"
      by (auto simp: run_step_def Let_def split: option.splits)
    with Some True show ?thesis by (intro invalid) simp_all
  next
    case False
    then obtain dr crit rvs where caps: "draft s = Some dr" "critique s = Some crit"
      "revise s = Some rvs" by auto
    obtain r w1 where dres: "dr (state \<sigma>) (world \<sigma>) = (r, w1)" by force
    show ?thesis
    proof (cases r)
      case Hangs
      with assms Some caps dres have "out = Hangs"
        "\<sigma>' = logged (DraftCall i (state \<sigma>) Hangs) (world \<sigma>) \<sigma>"
        by (auto simp: run_step_def Let_def)
      with Some caps dres Hangs show ?thesis by (intro draft_hangs[of s dr crit rvs w1]) simp_all
    next
      case (Throws e)
      with assms Some caps dres have "out = Throws e"
        "\<sigma>' = push \<lparr> stepIndex = i, ts = Date_now H w1,
                     phase = ''draft:error'', error = Some (error_message e),
                     inputState = state \<sigma>, draftState = Undefined,
                     critiques = None, finalState = Undefined,
                     iterations = None \<rparr> (logged (DraftCall i (state \<sigma>) (Throws e)) w1 \<sigma>)"
        by (auto simp: run_step_def Let_def logged_def)
      with Some caps dres Throws show ?thesis by (intro draft_throws[of s dr crit rvs e w1]) simp_all
    next
      case (Returns ds)
      let ?m = "case maxIterations s of None \<Rightarrow> 3 | Some m \<Rightarrow> m"
      let ?loop = "critique_revise_loop H i ?m
         (case delayMs s of None \<Rightarrow> 0 | Some d \<Rightarrow> d) crit rvs (state \<sigma>) ds ds (Array []) 0
         (logged (DraftCall i (state \<sigma>) (Returns ds)) w1 \<sigma>)"
      obtain ex cur' cs' k' \<sigma>2 where loop: "?loop = (ex, cur', cs', k', \<sigma>2)"
        by (cases ?loop) auto
      have k0: "int 0 < max 1 ?m" by simp
      show ?thesis
      proof (cases ex)
        case Broke
        have rs: "run_step H i el \<sigma> =
            (if max 1 ?m \<le> int k' \<and> has_issues cs'
             then (Returns (),
                   (push \<lparr> stepIndex = i, ts = Date_now H (world \<sigma>2),
                      phase = ''revise:capped'', error = None,
                      inputState = state \<sigma>, draftState = ds,
                      critiques = Some (issues_of cs'), finalState = cur',
                      iterations = Some k' \<rparr> \<sigma>2) \<lparr>state := cur'\<rparr>)
             else (Returns (), \<sigma>2))"
          using Some caps dres Returns loop Broke by (simp add: run_step_def Let_def)
        from loop_Broke[OF loop[unfolded Broke]]
        have nc: "\<not> (max 1 ?m \<le> int k' \<and> has_issues cs')" by linarith
        have "run_step H i el \<sigma> = (Returns (), \<sigma>2)"
          by (subst rs) (rule if_not_P[OF nc])
        with assms have "out = Returns ()" "\<sigma>' = \<sigma>2" by simp_all
        with Some caps dres Returns loop Broke show ?thesis
          by (intro loop_broke[of s dr crit rvs ds w1 cur' cs' k']) simp_all
      next
        case Exhausted
        have rs: "run_step H i el \<sigma> =
            (if max 1 ?m \<le> int k' \<and> has_issues cs'
             then (Returns (),
                   (push \<lparr> stepIndex = i, ts = Date_now H (world \<sigma>2),
                      phase = ''revise:capped'', error = None,
                      inputState = state \<sigma>, draftState = ds,
                      critiques = Some (issues_of cs'), finalState = cur',
                      iterations = Some k' \<rparr> \<sigma>2) \<lparr>state := cur'\<rparr>)
             else (Returns (), \<sigma>2))"
          using Some caps dres Returns loop Exhausted by (simp add: run_step_def Let_def)
        from loop_Exhausted[OF loop[unfolded Exhausted] k0]
        have "k' = nat (max 1 ?m)" "has_issues cs'" by auto
        then have c: "max 1 ?m \<le> int k' \<and> has_issues cs'" by linarith
        have "run_step H i el \<sigma> = (Returns (),
                   (push \<lparr> stepIndex = i, ts = Date_now H (world \<sigma>2),
                      phase = ''revise:capped'', error = None,
                      inputState = state \<sigma>, draftState = ds,
                      critiques = Some (issues_of cs'), finalState = cur',
                      iterations = Some k' \<rparr> \<sigma>2) \<lparr>state := cur'\<rparr>)"
          by (subst rs) (rule if_P[OF c])
        with assms have "out = Returns ()"
          "\<sigma>' = (push \<lparr> stepIndex = i, ts = Date_now H (world \<sigma>2),
                      phase = ''revise:capped'', error = None,
                      inputState = state \<sigma>, draftState = ds,
                      critiques = Some (issues_of cs'), finalState = cur',
                      iterations = Some k' \<rparr> \<sigma>2) \<lparr>state := cur'\<rparr>"
          by simp_all
        with Some caps dres Returns loop Exhausted show ?thesis
          by (intro loop_exhausted[of s dr crit rvs ds w1 cur' cs' k' \<sigma>2]) simp_all
      next
        case (Threw e)
        with assms Some caps dres Returns loop have "out = Throws e" "\<sigma>' = \<sigma>2"
          by (auto simp: run_step_def Let_def)
        with Some caps dres Returns loop Threw show ?thesis by (intro loop_threw[of s dr crit rvs ds w1 e cur' cs' k']) simp_all
      next
        case Hung
        with assms Some caps dres Returns loop have "out = Hangs" "\<sigma>' = \<sigma>2"
          by (auto simp: run_step_def Let_def)
        with Some caps dres Returns loop Hung show ?thesis by (intro loop_hung[of s dr crit rvs ds w1 cur' cs' k']) simp_all
      qed
    qed
  qed
qed

lemma run_step_frame:
  assumes "run_step H i el \<sigma> = (out, \<sigma>')"
  shows "\<exists>new ents. calls \<sigma>' = calls \<sigma> @ new \<and> auditHistory \<sigma>' = auditHistory \<sigma> @ ents \<and>
           (\<forall>x\<in>set new. call_index x = i) \<and> (\<forall>e\<in>set ents. stepIndex e = i) \<and>
           length ents \<le> 1 \<and>
           (\<forall>s. el = Some s \<longrightarrow>
                 length (filter is_critique_call new) \<le> iteration_budget s \<and>
                 length (filter is_revise_call new) \<le> iteration_budget s) \<and>
           (el = None \<longrightarrow> new = [])"
proof -
  have loop_case: ?thesis
    if el: "el = Some s"
      and loop: "critique_revise_loop H i (case maxIterations s of None \<Rightarrow> 3 | Some m \<Rightarrow> m)
         dl crit rvs (state \<sigma>) ds ds (Array []) 0
         (logged (DraftCall i (state \<sigma>) (Returns ds)) w1 \<sigma>) = (ex, cur', cs', k', \<sigma>2)"
      and fin: "calls \<sigma>' = calls \<sigma>2"
        "auditHistory \<sigma>' = auditHistory \<sigma>2 \<or>
         (ex = Exhausted \<and> (\<exists>e. stepIndex e = i \<and> auditHistory \<sigma>' = auditHistory \<sigma>2 @ [e]))"
    for s dl crit rvs ds w1 ex cur' cs' k' \<sigma>2
  proof -
    let ?\<sigma>1 = "logged (DraftCall i (state \<sigma>) (Returns ds)) w1 \<sigma>"
    from loop_calls[OF loop] obtain new where n: "calls \<sigma>2 = calls ?\<sigma>1 @ new"
      "\<forall>x\<in>set new. call_index x = i \<and> (is_critique_call x \<or> is_revise_call x)"
      "length (filter is_critique_call new) \<le> iteration_budget s"
      "length (filter is_revise_call new) \<le> iteration_budget s"
      by (auto simp: budget_max)
    from loop_entries[OF loop] obtain ents where e: "auditHistory \<sigma>2 = auditHistory ?\<sigma>1 @ ents"
      "\<forall>e\<in>set ents. stepIndex e = i" "length ents \<le> 1"
      by blast
    have ex0: "ents = []" if "ex = Exhausted"
    proof -
      have "int 0 < max 1 (case maxIterations s of None \<Rightarrow> 3 | Some m \<Rightarrow> m)" by simp
      from loop_Exhausted[OF loop[unfolded that] this] e(1) show ?thesis by simp
    qed
    let ?new = "DraftCall i (state \<sigma>) (Returns ds) # new"
    have c: "calls \<sigma>' = calls \<sigma> @ ?new" using fin(1) n(1) by (simp add: logged_def)
    have ci: "\<forall>x\<in>set ?new. call_index x = i" using n(2) by simp
    have cc: "length (filter is_critique_call ?new) \<le> iteration_budget s"
      "length (filter is_revise_call ?new) \<le> iteration_budget s"
      using n(3,4) by simp_all
    from fin(2) obtain ents' where "auditHistory \<sigma>' = auditHistory \<sigma> @ ents'"
      "\<forall>e\<in>set ents'. stepIndex e = i" "length ents' \<le> 1"
    proof
      assume "auditHistory \<sigma>' = auditHistory \<sigma>2"
      with e that[of ents] show ?thesis by (simp add: logged_def)
    next
      assume "ex = Exhausted \<and> (\<exists>e. stepIndex e = i \<and> auditHistory \<sigma>' = auditHistory \<sigma>2 @ [e])"
      then obtain e1 where "ex = Exhausted" "stepIndex e1 = i"
        "auditHistory \<sigma>' = auditHistory \<sigma>2 @ [e1]" by blast
      with e ex0 that[of "[e1]"] show ?thesis by (simp add: logged_def)
    qed
    with c ci cc el show ?thesis by blast
  qed
  from assms show ?thesis
  proof (cases rule: run_step_cases)
    case invalid
    have "calls \<sigma>' = calls \<sigma> @ []" using invalid(3) by (simp add: push_def)
    moreover have "auditHistory \<sigma>' = auditHistory \<sigma> @
       [\<lparr> stepIndex = i, ts = Date_now H (world \<sigma>), phase = ''invalid'',
                     error = Some (invalid_message i), inputState = state \<sigma>,
                     draftState = Undefined, critiques = None, finalState = Undefined,
                     iterations = None \<rparr>]"
      using invalid(3) by (simp add: push_def)
    ultimately show ?thesis by fastforce
  next
    case (draft_hangs s dr crit rvs w1)
    have "calls \<sigma>' = calls \<sigma> @ [DraftCall i (state \<sigma>) Hangs]"
      "auditHistory \<sigma>' = auditHistory \<sigma> @ []"
      using draft_hangs(7) by (simp_all add: logged_def)
    with draft_hangs(1) show ?thesis by fastforce
  next
    case (draft_throws s dr crit rvs e w1)
    have "calls \<sigma>' = calls \<sigma> @ [DraftCall i (state \<sigma>) (Throws e)]"
      "auditHistory \<sigma>' = auditHistory \<sigma> @ [\<lparr> stepIndex = i, ts = Date_now H w1,
                     phase = ''draft:error'', error = Some (error_message e),
                     inputState = state \<sigma>, draftState = Undefined,
                     critiques = None, finalState = Undefined,
                     iterations = None \<rparr>]"
      using draft_throws(7) by (simp_all add: logged_def push_def)
    with draft_throws(1) show ?thesis by fastforce
  next
    case (loop_threw s dr crit rvs ds w1 e cur' cs' k')
    from loop_case[OF loop_threw(1) loop_threw(6)] show ?thesis by simp
  next
    case (loop_hung s dr crit rvs ds w1 cur' cs' k')
    from loop_case[OF loop_hung(1) loop_hung(6)] show ?thesis by simp
  next
    case (loop_broke s dr crit rvs ds w1 cur' cs' k')
    from loop_case[OF loop_broke(1) loop_broke(6)] show ?thesis by simp
  next
    case (loop_exhausted s dr crit rvs ds w1 cur' cs' k' \<sigma>2)
    have "calls \<sigma>' = calls \<sigma>2" using loop_exhausted(8) by (simp add: push_def)
    moreover have "\<exists>e. stepIndex e = i \<and> auditHistory \<sigma>' = auditHistory \<sigma>2 @ [e]"
      using loop_exhausted(8) by (simp add: push_def)
    ultimately show ?thesis using loop_case[OF loop_exhausted(1) loop_exhausted(6)] by simp
  qed
qed

lemma last_critique_result_Draft:
  "last_critique_result (DraftCall i s r # xs) = last_critique_result xs"
  by (simp split: option.splits)

lemma not_progress_simps:
  "\<not> progress_phase ''invalid''" "\<not> progress_phase ''draft:error''"
  "\<not> progress_phase ''critique:error''" "\<not> progress_phase ''revise:error''"
  by (simp_all add: progress_phase_def)

text \<open>The three ways a step can end, read off the log and the audit history.\<close>

lemma run_step_outcome:
  assumes "run_step H i el \<sigma> = (out, \<sigma>')"
  obtains
    (failed) "out \<noteq> Returns ()"
      "\<forall>e\<in>set (new_entries \<sigma> \<sigma>'). \<not> progress_phase (phase e)"
      "\<not> (\<exists>v. last_critique_result (new_calls \<sigma> \<sigma>') = Some (Returns v) \<and> no_issues (or_empty v))"
  | (accepted) s ds pre v k where "el = Some s" "out = Returns ()"
      "calls \<sigma>' = calls \<sigma> @ DraftCall i (state \<sigma>) (Returns ds) # pre @
                     [CritiqueCall i (state \<sigma>') (Returns v)]"
      "no_issues (or_empty v)"
      "length (filter is_critique_call pre) = k" "length (filter is_revise_call pre) = k"
      "k < iteration_budget s"
      "auditHistory \<sigma>' = auditHistory \<sigma> @
         [\<lparr> stepIndex = i, ts = Date_now H (world \<sigma>'),
             phase = (if k = 0 then ''draft:accepted'' else ''revise:accepted''),
             error = None, inputState = state \<sigma>, draftState = ds, critiques = Some [],
             finalState = state \<sigma>', iterations = Some k \<rparr>]"
  | (capped) s ds pre c crs where "el = Some s" "out = Returns ()"
      "calls \<sigma>' = calls \<sigma> @ DraftCall i (state \<sigma>) (Returns ds) # pre @
                     [CritiqueCall i c (Returns (Array crs)),
                      ReviseCall i c crs (state \<sigma>) (Returns (state \<sigma>'))]"
      "crs \<noteq> []"
      "Suc (length (filter is_critique_call pre)) = iteration_budget s"
      "Suc (length (filter is_revise_call pre)) = iteration_budget s"
      "auditHistory \<sigma>' = auditHistory \<sigma> @
         [\<lparr> stepIndex = i, ts = Date_now H (world \<sigma>'), phase = ''revise:capped'',
             error = None, inputState = state \<sigma>, draftState = ds, critiques = Some crs,
             finalState = state \<sigma>', iterations = Some (iteration_budget s) \<rparr>]"
proof -
  have loop_failed: thesis
    if loop: "critique_revise_loop H i m dl crit rvs (state \<sigma>) ds ds (Array []) 0
         (logged (DraftCall i (state \<sigma>) (Returns ds)) w1 \<sigma>) = (ex, cur', cs', k', \<sigma>')"
      and ex: "ex \<noteq> Broke" and out: "out \<noteq> Returns ()"
      and ents: "\<exists>ents. auditHistory \<sigma>' = auditHistory \<sigma> @ ents \<and>
                  (\<forall>e\<in>set ents. \<not> progress_phase (phase e))"
    for m dl crit rvs ds w1 ex cur' cs' k'
  proof -
    let ?\<sigma>1 = "logged (DraftCall i (state \<sigma>) (Returns ds)) w1 \<sigma>"
    have "int 0 < max 1 m" by simp
    from loop_last_critique[OF loop this] ex obtain new r where
      n: "calls \<sigma>' = calls ?\<sigma>1 @ new" "last_critique_result new = Some r"
        "\<not> (\<exists>v. r = Returns v \<and> no_issues (or_empty v))"
      by blast
    have "calls \<sigma>' = calls \<sigma> @ DraftCall i (state \<sigma>) (Returns ds) # new"
      using n(1) by (simp add: logged_def)
    then have nc: "new_calls \<sigma> \<sigma>' = DraftCall i (state \<sigma>) (Returns ds) # new"
      by (rule new_calls_eq)
    have 3: "\<not> (\<exists>v. last_critique_result (new_calls \<sigma> \<sigma>') = Some (Returns v)
                  \<and> no_issues (or_empty v))"
      unfolding nc last_critique_result_Draft using n(2,3) by simp
    from ents obtain es where "auditHistory \<sigma>' = auditHistory \<sigma> @ es"
      "\<forall>e\<in>set es. \<not> progress_phase (phase e)" by blast
    then have "\<forall>e\<in>set (new_entries \<sigma> \<sigma>'). \<not> progress_phase (phase e)"
      by (simp add: new_entries_eq)
    from failed[OF out this 3] show thesis .
  qed
  from assms show thesis
  proof (cases rule: run_step_cases)
    case invalid
    have "new_calls \<sigma> \<sigma>' = []" "new_entries \<sigma> \<sigma>' =
       [\<lparr> stepIndex = i, ts = Date_now H (world \<sigma>), phase = ''invalid'',
                     error = Some (invalid_message i), inputState = state \<sigma>,
                     draftState = Undefined, critiques = None, finalState = Undefined,
                     iterations = None \<rparr>]"
      using invalid(3) by (simp_all add: push_def new_calls_def new_entries_def)
    with invalid(2) show ?thesis by (intro failed) (simp_all add: not_progress_simps)
  next
    case (draft_hangs s dr crit rvs w1)
    have "new_calls \<sigma> \<sigma>' = [DraftCall i (state \<sigma>) Hangs]" "new_entries \<sigma> \<sigma>' = []"
      using draft_hangs(7) by (simp_all add: logged_def new_calls_def new_entries_def)
    with draft_hangs(6) show ?thesis by (intro failed) simp_all
  next
    case (draft_throws s dr crit rvs e w1)
    have "new_calls \<sigma> \<sigma>' = [DraftCall i (state \<sigma>) (Throws e)]"
      "new_entries \<sigma> \<sigma>' = [\<lparr> stepIndex = i, ts = Date_now H w1,
                     phase = ''draft:error'', error = Some (error_message e),
                     inputState = state \<sigma>, draftState = Undefined,
                     critiques = None, finalState = Undefined,
                     iterations = None \<rparr>]"
      using draft_throws(7) by (simp_all add: logged_def push_def new_calls_def new_entries_def)
    with draft_throws(6) show ?thesis by (intro failed) (simp_all add: not_progress_simps)
  next
    case (loop_threw s dr crit rvs ds w1 e cur' cs' k')
    from loop_Threw[OF loop_threw(6)] obtain ent where
      "auditHistory \<sigma>' = auditHistory \<sigma> @ [ent]"
      "phase ent = ''critique:error'' \<or> phase ent = ''revise:error''"
      by (auto simp: logged_def)
    then have ents: "\<exists>ents. auditHistory \<sigma>' = auditHistory \<sigma> @ ents \<and>
                  (\<forall>e\<in>set ents. \<not> progress_phase (phase e))"
      by (intro exI[of _ "[ent]"]) (auto simp: not_progress_simps)
    have "Threw e \<noteq> Broke" "out \<noteq> Returns ()" using loop_threw(7) by simp_all
    from loop_failed[OF loop_threw(6) this ents] show ?thesis .
  next
    case (loop_hung s dr crit rvs ds w1 cur' cs' k')
    from loop_Hung[OF loop_hung(6)] have "auditHistory \<sigma>' = auditHistory \<sigma> @ []"
      by (simp add: logged_def)
    then have ents: "\<exists>ents. auditHistory \<sigma>' = auditHistory \<sigma> @ ents \<and>
                  (\<forall>e\<in>set ents. \<not> progress_phase (phase e))"
      by (intro exI[of _ "[]"]) simp
    have "Hung \<noteq> Broke" "out \<noteq> Returns ()" using loop_hung(7) by simp_all
    from loop_failed[OF loop_hung(6) this ents] show ?thesis .
  next
    case (loop_broke s dr crit rvs ds w1 cur' cs' k')
    let ?\<sigma>1 = "logged (DraftCall i (state \<sigma>) (Returns ds)) w1 \<sigma>"
    from loop_Broke[OF loop_broke(6)] obtain pre v where
      b: "int k' < max 1 (case maxIterations s of None \<Rightarrow> 3 | Some m \<Rightarrow> m)"
        "state \<sigma>' = cur'"
        "auditHistory \<sigma>' = auditHistory ?\<sigma>1 @
           [\<lparr> stepIndex = i, ts = Date_now H (world \<sigma>'),
               phase = (if k' = 0 then ''draft:accepted'' else ''revise:accepted''),
               error = None, inputState = state \<sigma>, draftState = ds, critiques = Some [],
               finalState = cur', iterations = Some k' \<rparr>]"
        "calls \<sigma>' = calls ?\<sigma>1 @ pre @ [CritiqueCall i cur' (Returns v)]"
        "no_issues (or_empty v)"
        "length (filter is_critique_call pre) = k'"
        "length (filter is_revise_call pre) = k'"
      by auto
    show ?thesis
    proof (rule accepted[of s ds pre v k'])
      show "el = Some s" "out = Returns ()" by fact+
      show "calls \<sigma>' = calls \<sigma> @ DraftCall i (state \<sigma>) (Returns ds) # pre @
                     [CritiqueCall i (state \<sigma>') (Returns v)]"
        using b(4) b(2) by (simp add: logged_def)
      show "no_issues (or_empty v)" by fact
      show "length (filter is_critique_call pre) = k'" "length (filter is_revise_call pre) = k'"
        by fact+
      show "k' < iteration_budget s" using b(1) unfolding iteration_budget_def by linarith
      show "auditHistory \<sigma>' = auditHistory \<sigma> @
         [\<lparr> stepIndex = i, ts = Date_now H (world \<sigma>'),
             phase = (if k' = 0 then ''draft:accepted'' else ''revise:accepted''),
             error = None, inputState = state \<sigma>, draftState = ds, critiques = Some [],
             finalState = state \<sigma>', iterations = Some k' \<rparr>]"
        using b(3) b(2) by (simp add: logged_def)
    qed
  next
    case (loop_exhausted s dr crit rvs ds w1 cur' cs' k' \<sigma>2)
    let ?\<sigma>1 = "logged (DraftCall i (state \<sigma>) (Returns ds)) w1 \<sigma>"
    have "int 0 < max 1 (case maxIterations s of None \<Rightarrow> 3 | Some m \<Rightarrow> m)" by simp
    from loop_Exhausted[OF loop_exhausted(6) this] obtain pre c crs where
      x: "k' = iteration_budget s" "auditHistory \<sigma>2 = auditHistory ?\<sigma>1"
        "calls \<sigma>2 = calls ?\<sigma>1 @ pre @
                          [CritiqueCall i c (Returns (Array crs)),
                           ReviseCall i c crs (state \<sigma>) (Returns cur')]"
        "crs \<noteq> []" "cs' = Array crs"
        "Suc (length (filter is_critique_call pre)) = iteration_budget s"
        "Suc (length (filter is_revise_call pre)) = iteration_budget s"
      by (auto simp: budget_max)
    have st: "state \<sigma>' = cur'" "world \<sigma>' = world \<sigma>2" "calls \<sigma>' = calls \<sigma>2"
      using loop_exhausted(8) by (simp_all add: push_def)
    show ?thesis
    proof (rule capped[of s ds pre c crs])
      show "el = Some s" "out = Returns ()" by fact+
      show "calls \<sigma>' = calls \<sigma> @ DraftCall i (state \<sigma>) (Returns ds) # pre @
                     [CritiqueCall i c (Returns (Array crs)),
                      ReviseCall i c crs (state \<sigma>) (Returns (state \<sigma>'))]"
        using x(3) st by (simp add: logged_def)
      show "crs \<noteq> []" by fact
      show "Suc (length (filter is_critique_call pre)) = iteration_budget s"
        "Suc (length (filter is_revise_call pre)) = iteration_budget s" by fact+
      show "auditHistory \<sigma>' = auditHistory \<sigma> @
         [\<lparr> stepIndex = i, ts = Date_now H (world \<sigma>'), phase = ''revise:capped'',
             error = None, inputState = state \<sigma>, draftState = ds, critiques = Some crs,
             finalState = state \<sigma>', iterations = Some (iteration_budget s) \<rparr>]"
        using loop_exhausted(8) x(1,2,5) st(1) by (simp add: push_def logged_def)
    qed
  qed
qed

section \<open>The run over the list of steps\<close>

lemma run_steps_Cons_Returns:
  "run_step H i el \<sigma> = (Returns u, \<sigma>1) \<Longrightarrow>
   run_steps H i (el # rest) \<sigma> = run_steps H (Suc i) rest \<sigma>1"
  by simp

lemma run_steps_Cons_fails:
  "run_step H i el \<sigma> = (out, \<sigma>1) \<Longrightarrow> out \<noteq> Returns () \<Longrightarrow>
   run_steps H i (el # rest) \<sigma> = (case out of Throws e \<Rightarrow> (Throws e, \<sigma>1) | _ \<Rightarrow> (Hangs, \<sigma>1))"
  by (cases out) simp_all

lemma run_steps_fails_not_Returns:
  "run_step H i el \<sigma> = (out, \<sigma>1) \<Longrightarrow> out \<noteq> Returns () \<Longrightarrow>
   run_steps H i (el # rest) \<sigma> = (out', \<sigma>') \<Longrightarrow> \<sigma>' = \<sigma>1 \<and> (\<forall>v. out' \<noteq> Returns v)"
  by (cases out) auto

lemma run_steps_append:
  "run_steps H i (xs @ ys) \<sigma> =
     (case run_steps H i xs \<sigma> of
        (Returns v, \<sigma>1) \<Rightarrow> run_steps H (i + length xs) ys \<sigma>1
      | (Throws e, \<sigma>1) \<Rightarrow> (Throws e, \<sigma>1)
      | (Hangs, \<sigma>1) \<Rightarrow> (Hangs, \<sigma>1))"
proof (induction xs arbitrary: i \<sigma>)
  case Nil
  show ?case by simp
next
  case (Cons el xs)
  obtain out \<sigma>1 where s: "run_step H i el \<sigma> = (out, \<sigma>1)" by force
  show ?case
  proof (cases out)
    case (Returns u)
    with s Cons[of "Suc i" \<sigma>1] show ?thesis
      by (simp split: prod.splits outcome.splits)
  qed (use s in simp_all)
qed

lemma run_steps_Returns_state:
  "run_steps H i steps \<sigma> = (Returns v, \<sigma>') \<Longrightarrow> v = state \<sigma>'"
proof (induction steps arbitrary: i \<sigma>)
  case Nil
  then show ?case by auto
next
  case (Cons el steps)
  obtain out \<sigma>1 where s: "run_step H i el \<sigma> = (out, \<sigma>1)" by force
  with Cons show ?case by (cases out) auto
qed

lemma critique_calls_append [simp]:
  "critique_calls k (xs @ ys) = critique_calls k xs @ critique_calls k ys"
  by (simp add: critique_calls_def)

lemma revise_calls_append [simp]:
  "revise_calls k (xs @ ys) = revise_calls k xs @ revise_calls k ys"
  by (simp add: revise_calls_def)

lemma calls_other_index:
  "\<forall>x\<in>set xs. call_index x \<noteq> k \<Longrightarrow> critique_calls k xs = [] \<and> revise_calls k xs = []"
  by (auto simp: critique_calls_def revise_calls_def filter_empty_conv)

lemma calls_same_index:
  "\<forall>x\<in>set xs. call_index x = k \<Longrightarrow>
   critique_calls k xs = filter is_critique_call xs \<and> revise_calls k xs = filter is_revise_call xs"
  by (auto simp: critique_calls_def revise_calls_def intro: filter_cong)

lemma run_steps_calls:
  assumes "run_steps H i steps \<sigma> = (out, \<sigma>')"
  shows "\<exists>new. calls \<sigma>' = calls \<sigma> @ new \<and>
           (\<forall>x\<in>set new. i \<le> call_index x \<and> call_index x < i + length steps) \<and>
           (\<forall>k s. k < length steps \<longrightarrow> steps ! k = Some s \<longrightarrow>
                  length (critique_calls (i + k) new) \<le> iteration_budget s \<and>
                  length (revise_calls (i + k) new) \<le> iteration_budget s)"
  using assms
proof (induction steps arbitrary: i \<sigma>)
  case Nil
  then show ?case by auto
next
  case (Cons el rest)
  obtain o1 \<sigma>1 where s: "run_step H i el \<sigma> = (o1, \<sigma>1)" by force
  from run_step_frame[OF s] obtain new1 where
    f: "calls \<sigma>1 = calls \<sigma> @ new1" "\<forall>x\<in>set new1. call_index x = i"
      "\<forall>s. el = Some s \<longrightarrow>
                 length (filter is_critique_call new1) \<le> iteration_budget s \<and>
                 length (filter is_revise_call new1) \<le> iteration_budget s"
    by blast
  have own: "critique_calls i new1 = filter is_critique_call new1"
    "revise_calls i new1 = filter is_revise_call new1"
    using calls_same_index[OF f(2)] by simp_all
  have other: "critique_calls (i + Suc k) new1 = []" "revise_calls (i + Suc k) new1 = []" for k
    using calls_other_index[of new1 "i + Suc k"] f(2) by simp_all
  show ?case
  proof (cases "o1 = Returns ()")
    case False
    from run_steps_fails_not_Returns[OF s False Cons.prems] have \<sigma>': "\<sigma>' = \<sigma>1" by simp
    have "\<forall>k s. k < length (el # rest) \<longrightarrow> (el # rest) ! k = Some s \<longrightarrow>
                  length (critique_calls (i + k) new1) \<le> iteration_budget s \<and>
                  length (revise_calls (i + k) new1) \<le> iteration_budget s"
    proof (intro allI impI)
      fix k s assume "k < length (el # rest)" "(el # rest) ! k = Some s"
      then show "length (critique_calls (i + k) new1) \<le> iteration_budget s \<and>
                  length (revise_calls (i + k) new1) \<le> iteration_budget s"
        using f(3) own other by (cases k) auto
    qed
    with f(1,2) \<sigma>' show ?thesis by (intro exI[of _ new1]) auto
  next
    case True
    with s Cons.prems have rest: "run_steps H (Suc i) rest \<sigma>1 = (out, \<sigma>')" by simp
    from Cons.IH[OF rest] obtain new2 where
      g: "calls \<sigma>' = calls \<sigma>1 @ new2"
        "\<forall>x\<in>set new2. Suc i \<le> call_index x \<and> call_index x < Suc i + length rest"
        "\<forall>k s. k < length rest \<longrightarrow> rest ! k = Some s \<longrightarrow>
                  length (critique_calls (Suc i + k) new2) \<le> iteration_budget s \<and>
                  length (revise_calls (Suc i + k) new2) \<le> iteration_budget s"
      by blast
    have "\<forall>x\<in>set new2. call_index x \<noteq> i" using g(2) by auto
    from calls_other_index[OF this]
    have later: "critique_calls i new2 = []" "revise_calls i new2 = []" by simp_all
    have "\<forall>k s. k < length (el # rest) \<longrightarrow> (el # rest) ! k = Some s \<longrightarrow>
                  length (critique_calls (i + k) (new1 @ new2)) \<le> iteration_budget s \<and>
                  length (revise_calls (i + k) (new1 @ new2)) \<le> iteration_budget s"
    proof (intro allI impI)
      fix k s assume k: "k < length (el # rest)" "(el # rest) ! k = Some s"
      show "length (critique_calls (i + k) (new1 @ new2)) \<le> iteration_budget s \<and>
                  length (revise_calls (i + k) (new1 @ new2)) \<le> iteration_budget s"
      proof (cases k)
        case 0
        with k f(3) own later show ?thesis by simp
      next
        case (Suc k')
        with k g(3) other[of k'] show ?thesis by simp
      qed
    qed
    moreover have "calls \<sigma>' = calls \<sigma> @ new1 @ new2" using f(1) g(1) by simp
    moreover have "\<forall>x\<in>set (new1 @ new2). i \<le> call_index x \<and> call_index x < i + length (el # rest)"
      using f(2) g(2) by auto
    ultimately show ?thesis by blast
  qed
qed

lemma run_step_Returns:
  assumes "run_step H i el \<sigma> = (Returns u, \<sigma>')"
  shows "\<exists>e. auditHistory \<sigma>' = auditHistory \<sigma> @ [e] \<and> stepIndex e = i \<and>
             progress_phase (phase e) \<and> finalState e = state \<sigma>'"
  using assms
proof (cases rule: run_step_outcome)
  case failed
  then show ?thesis by simp
next
  case (accepted s ds pre v k)
  from accepted(8) show ?thesis by (simp add: progress_phase_def)
next
  case (capped s ds pre c crs)
  from capped(7) show ?thesis by (simp add: progress_phase_def)
qed

lemma run_step_capped_entry:
  assumes "run_step H i el \<sigma> = (out, \<sigma>')"
    and "auditHistory \<sigma>' = auditHistory \<sigma> @ ents" and "e \<in> set ents"
    and "phase e = ''revise:capped''"
  shows "\<exists>pre c crs. calls \<sigma>' = calls \<sigma> @ pre @
           [CritiqueCall i c (Returns (Array crs)),
            ReviseCall i c crs (state \<sigma>) (Returns (finalState e))] \<and>
          critiques e = Some crs \<and> crs \<noteq> [] \<and> stepIndex e = i"
proof -
  have ne: "new_entries \<sigma> \<sigma>' = ents" using assms(2) by (rule new_entries_eq)
  from assms(1) show ?thesis
  proof (cases rule: run_step_outcome)
    case failed
    with ne assms(3,4) show ?thesis by (auto simp: progress_phase_def)
  next
    case (accepted s ds pre v k)
    from accepted(8) assms(2,3,4) show ?thesis by (auto split: if_splits)
  next
    case (capped s ds pre c crs)
    from capped(7) assms(2,3) have e: "e = \<lparr> stepIndex = i, ts = Date_now H (world \<sigma>'),
             phase = ''revise:capped'',
             error = None, inputState = state \<sigma>, draftState = ds, critiques = Some crs,
             finalState = state \<sigma>', iterations = Some (iteration_budget s) \<rparr>" by simp
    have "calls \<sigma>' = calls \<sigma> @ (DraftCall i (state \<sigma>) (Returns ds) # pre) @
           [CritiqueCall i c (Returns (Array crs)),
            ReviseCall i c crs (state \<sigma>) (Returns (finalState e))]"
      using capped(3) e by simp
    moreover have "critiques e = Some crs" "stepIndex e = i" using e by simp_all
    ultimately show ?thesis using capped(4) by blast
  qed
qed

lemma run_steps_entries:
  assumes "run_steps H i steps \<sigma> = (out, \<sigma>')"
  shows "\<exists>ents. auditHistory \<sigma>' = auditHistory \<sigma> @ ents \<and> sorted (map stepIndex ents) \<and>
           (\<forall>e\<in>set ents. i \<le> stepIndex e \<and> stepIndex e < i + length steps) \<and>
           (\<forall>v. out = Returns v \<longrightarrow>
              (\<forall>k<length steps. \<exists>e. filter (\<lambda>e. stepIndex e = i + k) ents = [e] \<and>
                                      progress_phase (phase e)))"
  using assms
proof (induction steps arbitrary: i \<sigma>)
  case Nil
  then show ?case by auto
next
  case (Cons el rest)
  obtain o1 \<sigma>1 where s: "run_step H i el \<sigma> = (o1, \<sigma>1)" by force
  show ?case
  proof (cases "o1 = Returns ()")
    case False
    from run_steps_fails_not_Returns[OF s False Cons.prems]
    have \<sigma>': "\<sigma>' = \<sigma>1" "\<forall>v. out \<noteq> Returns v" by simp_all
    from run_step_frame[OF s] obtain ents1 where
      f: "auditHistory \<sigma>1 = auditHistory \<sigma> @ ents1" "\<forall>e\<in>set ents1. stepIndex e = i"
        "length ents1 \<le> 1"
      by blast
    from f(3) have "sorted (map stepIndex ents1)"
      by (cases ents1) (auto simp: Suc_le_eq)
    with f(1,2) \<sigma>' show ?thesis by (intro exI[of _ ents1]) auto
  next
    case True
    with s Cons.prems have rest: "run_steps H (Suc i) rest \<sigma>1 = (out, \<sigma>')" by simp
    from run_step_Returns[OF s[unfolded True]] obtain e1 where
      f: "auditHistory \<sigma>1 = auditHistory \<sigma> @ [e1]" "stepIndex e1 = i"
        "progress_phase (phase e1)"
      by blast
    from Cons.IH[OF rest] obtain ents2 where
      g: "auditHistory \<sigma>' = auditHistory \<sigma>1 @ ents2" "sorted (map stepIndex ents2)"
        "\<forall>e\<in>set ents2. Suc i \<le> stepIndex e \<and> stepIndex e < Suc i + length rest"
        "\<forall>v. out = Returns v \<longrightarrow>
              (\<forall>k<length rest. \<exists>e. filter (\<lambda>e. stepIndex e = Suc i + k) ents2 = [e] \<and>
                                      progress_phase (phase e))"
      by blast
    have none: "filter (\<lambda>e. stepIndex e = i) ents2 = []"
      using g(3) by (auto simp: filter_empty_conv)
    have "auditHistory \<sigma>' = auditHistory \<sigma> @ e1 # ents2" using f(1) g(1) by simp
    moreover have "sorted (map stepIndex (e1 # ents2))" using g(2,3) f(2) by auto
    moreover have "\<forall>e\<in>set (e1 # ents2). i \<le> stepIndex e \<and> stepIndex e < i + length (el # rest)"
      using g(3) f(2) by auto
    moreover have "\<forall>v. out = Returns v \<longrightarrow>
              (\<forall>k<length (el # rest). \<exists>e. filter (\<lambda>e. stepIndex e = i + k) (e1 # ents2) = [e] \<and>
                                      progress_phase (phase e))"
    proof (intro allI impI)
      fix v k assume o: "out = Returns v" and k: "k < length (el # rest)"
      show "\<exists>e. filter (\<lambda>e. stepIndex e = i + k) (e1 # ents2) = [e] \<and> progress_phase (phase e)"
      proof (cases k)
        case 0
        with f(2,3) none show ?thesis by simp
      next
        case (Suc k')
        with k g(4) o obtain e where "filter (\<lambda>e. stepIndex e = Suc i + k') ents2 = [e]"
          "progress_phase (phase e)" by auto
        with Suc f(2) show ?thesis by simp
      qed
    qed
    ultimately show ?thesis by blast
  qed
qed

lemma run_steps_capped:
  assumes "run_steps H i steps \<sigma> = (out, \<sigma>')"
  shows "\<exists>new ents. calls \<sigma>' = calls \<sigma> @ new \<and> auditHistory \<sigma>' = auditHistory \<sigma> @ ents \<and>
           (\<forall>x\<in>set new. i \<le> call_index x) \<and>
           (\<forall>e\<in>set ents. phase e = ''revise:capped'' \<longrightarrow>
              (\<exists>pre c crs s0 post.
                 new = pre @ [CritiqueCall (stepIndex e) c (Returns (Array crs)),
                              ReviseCall (stepIndex e) c crs s0 (Returns (finalState e))] @ post \<and>
                 critiques e = Some crs \<and> crs \<noteq> [] \<and>
                 (\<forall>x\<in>set post. call_index x \<noteq> stepIndex e)))"
  using assms
proof (induction steps arbitrary: i \<sigma>)
  case Nil
  then show ?case by auto
next
  case (Cons el rest)
  obtain o1 \<sigma>1 where s: "run_step H i el \<sigma> = (o1, \<sigma>1)" by force
  from run_step_frame[OF s] obtain new1 ents1 where
    f: "calls \<sigma>1 = calls \<sigma> @ new1" "auditHistory \<sigma>1 = auditHistory \<sigma> @ ents1"
      "\<forall>x\<in>set new1. call_index x = i"
    by blast
  have own: "\<exists>pre c crs s0.
                 new1 = pre @ [CritiqueCall (stepIndex e) c (Returns (Array crs)),
                              ReviseCall (stepIndex e) c crs s0 (Returns (finalState e))] \<and>
                 critiques e = Some crs \<and> crs \<noteq> [] \<and> stepIndex e = i"
    if "e \<in> set ents1" "phase e = ''revise:capped''" for e
  proof -
    from run_step_capped_entry[OF s f(2) that] obtain pre c crs where
      "calls \<sigma>1 = calls \<sigma> @ pre @
           [CritiqueCall i c (Returns (Array crs)),
            ReviseCall i c crs (state \<sigma>) (Returns (finalState e))]"
      "critiques e = Some crs" "crs \<noteq> []" "stepIndex e = i" by blast
    with f(1) show ?thesis by auto
  qed
  show ?case
  proof (cases "o1 = Returns ()")
    case False
    from run_steps_fails_not_Returns[OF s False Cons.prems] have \<sigma>': "\<sigma>' = \<sigma>1" by simp
    have "\<forall>e\<in>set ents1. phase e = ''revise:capped'' \<longrightarrow>
              (\<exists>pre c crs s0 post.
                 new1 = pre @ [CritiqueCall (stepIndex e) c (Returns (Array crs)),
                              ReviseCall (stepIndex e) c crs s0 (Returns (finalState e))] @ post \<and>
                 critiques e = Some crs \<and> crs \<noteq> [] \<and>
                 (\<forall>x\<in>set post. call_index x \<noteq> stepIndex e))"
    proof (intro ballI impI)
      fix e assume "e \<in> set ents1" "phase e = ''revise:capped''"
      from own[OF this] obtain pre c crs s0 where
        "new1 = pre @ [CritiqueCall (stepIndex e) c (Returns (Array crs)),
                       ReviseCall (stepIndex e) c crs s0 (Returns (finalState e))] @ []"
        "critiques e = Some crs" "crs \<noteq> []" by auto
      then show "\<exists>pre c crs s0 post.
                 new1 = pre @ [CritiqueCall (stepIndex e) c (Returns (Array crs)),
                              ReviseCall (stepIndex e) c crs s0 (Returns (finalState e))] @ post \<and>
                 critiques e = Some crs \<and> crs \<noteq> [] \<and>
                 (\<forall>x\<in>set post. call_index x \<noteq> stepIndex e)"
        by (intro exI[of _ pre] exI[of _ c] exI[of _ crs] exI[of _ s0] exI[of _ "[]"]) simp
    qed
    with f \<sigma>' show ?thesis
      by (intro exI[of _ new1] exI[of _ ents1]) (simp add: le_eq_less_or_eq)
  next
    case True
    with s Cons.prems have rest: "run_steps H (Suc i) rest \<sigma>1 = (out, \<sigma>')" by simp
    from Cons.IH[OF rest] obtain new2 ents2 where
      g: "calls \<sigma>' = calls \<sigma>1 @ new2" "auditHistory \<sigma>' = auditHistory \<sigma>1 @ ents2"
        "\<forall>x\<in>set new2. Suc i \<le> call_index x"
        "\<forall>e\<in>set ents2. phase e = ''revise:capped'' \<longrightarrow>
              (\<exists>pre c crs s0 post.
                 new2 = pre @ [CritiqueCall (stepIndex e) c (Returns (Array crs)),
                              ReviseCall (stepIndex e) c crs s0 (Returns (finalState e))] @ post \<and>
                 critiques e = Some crs \<and> crs \<noteq> [] \<and>
                 (\<forall>x\<in>set post. call_index x \<noteq> stepIndex e))"
      by blast
    have "\<forall>e\<in>set (ents1 @ ents2). phase e = ''revise:capped'' \<longrightarrow>
              (\<exists>pre c crs s0 post.
                 new1 @ new2 = pre @ [CritiqueCall (stepIndex e) c (Returns (Array crs)),
                              ReviseCall (stepIndex e) c crs s0 (Returns (finalState e))] @ post \<and>
                 critiques e = Some crs \<and> crs \<noteq> [] \<and>
                 (\<forall>x\<in>set post. call_index x \<noteq> stepIndex e))"
    proof (intro ballI impI)
      fix e assume e: "e \<in> set (ents1 @ ents2)" and p: "phase e = ''revise:capped''"
      show "\<exists>pre c crs s0 post.
                 new1 @ new2 = pre @ [CritiqueCall (stepIndex e) c (Returns (Array crs)),
                              ReviseCall (stepIndex e) c crs s0 (Returns (finalState e))] @ post \<and>
                 critiques e = Some crs \<and> crs \<noteq> [] \<and>
                 (\<forall>x\<in>set post. call_index x \<noteq> stepIndex e)"
      proof (cases "e \<in> set ents1")
        case True
        from own[OF True p] obtain pre c crs s0 where
          o: "new1 = pre @ [CritiqueCall (stepIndex e) c (Returns (Array crs)),
                       ReviseCall (stepIndex e) c crs s0 (Returns (finalState e))]"
          "critiques e = Some crs" "crs \<noteq> []" "stepIndex e = i" by auto
        have "\<forall>x\<in>set new2. call_index x \<noteq> stepIndex e" using g(3) o(4) by auto
        with o show ?thesis
          by (intro exI[of _ pre] exI[of _ c] exI[of _ crs] exI[of _ s0] exI[of _ new2]) simp
      next
        case False
        with e have "e \<in> set ents2" by simp
        with g(4) p obtain pre c crs s0 post where
          o: "new2 = pre @ [CritiqueCall (stepIndex e) c (Returns (Array crs)),
                              ReviseCall (stepIndex e) c crs s0 (Returns (finalState e))] @ post"
          "critiques e = Some crs" "crs \<noteq> []" "\<forall>x\<in>set post. call_index x \<noteq> stepIndex e"
          by blast
        then show ?thesis
          by (intro exI[of _ "new1 @ pre"] exI[of _ c] exI[of _ crs] exI[of _ s0] exI[of _ post])
             simp
      qed
    qed
    moreover have "calls \<sigma>' = calls \<sigma> @ new1 @ new2"
      "auditHistory \<sigma>' = auditHistory \<sigma> @ ents1 @ ents2"
      using f g by simp_all
    moreover have "\<forall>x\<in>set (new1 @ new2). i \<le> call_index x" using f(3) g(3) by auto
    ultimately show ?thesis by blast
  qed
qed

section \<open>Critiques that never clear, critiques that are always clean, invalid elements\<close>

lemma never_clears_exhausts:
  assumes "critique_revise_loop H i m delay crit rvs s0 d cur cs0 k \<sigma> = (ex, cur', cs', k', \<sigma>')"
    and crit: "\<forall>x w. \<exists>cs w'. crit x w = (Returns (Array cs), w') \<and> cs \<noteq> []"
    and rvs: "\<forall>x cs x0 w. \<exists>y w'. rvs x cs x0 w = (Returns y, w')"
  shows "ex = Exhausted"
  using assms(1)
proof (induction rule: loop_induct)
  case (finished cur cs0 k \<sigma>)
  show ?case by simp
next
  case (stopped cur cs0 k \<sigma> ex cs1 \<sigma>1)
  from crit obtain cs w' where c: "crit cur (world \<sigma>) = (Returns (Array cs), w')" "cs \<noteq> []"
    by blast
  from rvs obtain y w'' where r: "rvs cur cs s0 w' = (Returns y, w'')"
    by blast
  show ?case
  proof (cases rule: loop_body_cases[of H i delay crit rvs s0 d cur cs0 k \<sigma>])
    case (crit_hangs w1)
    with c show ?thesis by simp
  next
    case (crit_throws e w1)
    with c show ?thesis by simp
  next
    case (accepted v w1)
    with c show ?thesis by auto
  next
    case (rev_hangs crs w1 w2)
    with c r show ?thesis by simp
  next
    case (rev_throws crs e w1 w2)
    with c r show ?thesis by simp
  next
    case (revised crs cur1 w1 w2 w3)
    with stopped(2) show ?thesis by simp
  qed
next
  case (continued cur cs0 k \<sigma> cur1 cs1 \<sigma>1 ex cur' cs' k' \<sigma>')
  then show ?case by simp
qed

lemma always_clean_breaks:
  assumes "critique_revise_loop H i m delay crit rvs s0 d cur cs0 k \<sigma> = (ex, cur', cs', k', \<sigma>')"
    and crit: "\<forall>x w. \<exists>v w'. crit x w = (Returns v, w') \<and> no_issues (or_empty v)"
    and k: "int k < max 1 m"
  shows "ex = Broke \<and> k' = k \<and> cur' = cur \<and>
         (\<exists>v. calls \<sigma>' = calls \<sigma> @ [CritiqueCall i cur (Returns v)])"
proof -
  from crit obtain v w' where c: "crit cur (world \<sigma>) = (Returns v, w')" "no_issues (or_empty v)"
    by blast
  show ?thesis
  proof (cases rule: loop_body_cases[of H i delay crit rvs s0 d cur cs0 k \<sigma>])
    case (crit_hangs w1)
    with c show ?thesis by simp
  next
    case (crit_throws e w1)
    with c show ?thesis by simp
  next
    case (accepted v1 w1)
    from loop_stop[OF k accepted(2)] assms(1) accepted(3) c(1) show ?thesis
      by (auto simp: push_def logged_def)
  next
    case (rev_hangs crs w1 w2)
    with c show ?thesis by auto
  next
    case (rev_throws crs e w1 w2)
    with c show ?thesis by auto
  next
    case (revised crs cur1 w1 w2 w3)
    with c show ?thesis by auto
  qed
qed

lemma invalid_element_stops:
  assumes "el = None \<or> (\<exists>s. el = Some s \<and> (draft s = None \<or> critique s = None \<or> revise s = None))"
  shows "run_step H i el \<sigma> =
           (Throws (TypeError (invalid_message i)),
            push \<lparr> stepIndex = i, ts = Date_now H (world \<sigma>), phase = ''invalid'',
                   error = Some (invalid_message i), inputState = state \<sigma>,
                   draftState = Undefined, critiques = None, finalState = Undefined,
                   iterations = None \<rparr> \<sigma>)"
  using assms
  by (auto simp: run_step_def empty_object_def Let_def split: option.splits)

lemma invalid_element_fails_run:
  assumes i: "i < length steps"
    and el: "steps ! i = None \<or>
             (\<exists>s. steps ! i = Some s \<and> (draft s = None \<or> critique s = None \<or> revise s = None))"
    and pre: "execute H initialState (take i steps) w = (Returns st, \<sigma>)"
  shows "execute H initialState steps w =
           (Throws (TypeError (invalid_message i)),
            push \<lparr> stepIndex = i, ts = Date_now H (world \<sigma>), phase = ''invalid'',
                   error = Some (invalid_message i), inputState = st,
                   draftState = Undefined, critiques = None, finalState = Undefined,
                   iterations = None \<rparr> \<sigma>)"
    and "\<forall>e\<in>set (auditHistory \<sigma>). stepIndex e < i"
proof -
  let ?\<sigma>0 = "\<lparr> auditHistory = [], state = initialState, world = w, calls = [] \<rparr>"
  from pre have p: "run_steps H 0 (take i steps) ?\<sigma>0 = (Returns st, \<sigma>)"
    by (simp add: execute_def)
  from run_steps_Returns_state[OF p] have st: "st = state \<sigma>" .
  have split: "steps = take i steps @ steps ! i # drop (Suc i) steps"
    using i by (rule id_take_nth_drop)
  have len: "length (take i steps) = i" using i by simp
  have "run_steps H 0 steps ?\<sigma>0 =
          run_steps H 0 (take i steps @ steps ! i # drop (Suc i) steps) ?\<sigma>0"
    using split by simp
  also have "\<dots> = run_steps H i (steps ! i # drop (Suc i) steps) \<sigma>"
    by (simp only: run_steps_append p len) simp
  also have "\<dots> = (Throws (TypeError (invalid_message i)),
            push \<lparr> stepIndex = i, ts = Date_now H (world \<sigma>), phase = ''invalid'',
                   error = Some (invalid_message i), inputState = st,
                   draftState = Undefined, critiques = None, finalState = Undefined,
                   iterations = None \<rparr> \<sigma>)"
    using invalid_element_stops[OF el, of H i \<sigma>] st by simp
  finally show "execute H initialState steps w =
           (Throws (TypeError (invalid_message i)),
            push \<lparr> stepIndex = i, ts = Date_now H (world \<sigma>), phase = ''invalid'',
                   error = Some (invalid_message i), inputState = st,
                   draftState = Undefined, critiques = None, finalState = Undefined,
                   iterations = None \<rparr> \<sigma>)"
    by (simp add: execute_def)
  from run_steps_entries[OF p] len show "\<forall>e\<in>set (auditHistory \<sigma>). stepIndex e < i"
    by auto
qed

section \<open>The message of the TypeError names the step\<close>

lemma digit_char_inj:
  assumes "digit_char m = digit_char n"
  shows "m mod 10 = n mod 10"
proof -
  have d: "distinct ''0123456789''" by simp
  from assms have "''0123456789'' ! (m mod 10) = ''0123456789'' ! (n mod 10)"
    by (simp add: digit_char_def)
  with d show ?thesis by (simp add: nth_eq_iff_index_eq)
qed

lemma decimal_not_Nil: "decimal n \<noteq> []"
  by (subst decimal.simps) simp

lemma decimal_inj: "decimal n = decimal m \<Longrightarrow> n = m"
proof (induction n arbitrary: m rule: less_induct)
  case (less n)
  from less.prems have e: "(if n < 10 then [digit_char n] else decimal (n div 10) @ [digit_char n])
      = (if m < 10 then [digit_char m] else decimal (m div 10) @ [digit_char m])"
    by (subst (asm) decimal.simps[of n], subst (asm) decimal.simps[of m])
  show ?case
  proof (cases "n < 10")
    case True
    note n = True
    show ?thesis
    proof (cases "m < 10")
      case True
      with n e have "digit_char n = digit_char m" by simp
      from digit_char_inj[OF this] n True show ?thesis by simp
    next
      case False
      with n e decimal_not_Nil[of "m div 10"] show ?thesis by simp
    qed
  next
    case False
    note n = False
    show ?thesis
    proof (cases "m < 10")
      case True
      with n e decimal_not_Nil[of "n div 10"] show ?thesis by simp
    next
      case False
      with n e have d: "decimal (n div 10) = decimal (m div 10)" "digit_char n = digit_char m"
        by simp_all
      from n have "n div 10 < n" by simp
      from less.IH[OF this d(1)] have "n div 10 = m div 10" .
      moreover from digit_char_inj[OF d(2)] have "n mod 10 = m mod 10" .
      ultimately show ?thesis by (metis div_mult_mod_eq)
    qed
  qed
qed

lemma invalid_message_inj: "invalid_message j = invalid_message i \<Longrightarrow> j = i"
  by (simp add: invalid_message_def decimal_inj)

section \<open>The last invocation of a step\<close>

text \<open>Unless the loop runs out of iterations, the last thing it did was not a
  revise that returned.\<close>

lemma loop_last_call:
  assumes "critique_revise_loop H i m delay crit rvs s0 d cur cs0 k \<sigma> = (ex, cur', cs', k', \<sigma>')"
    and "ex \<noteq> Exhausted"
  shows "\<exists>new. calls \<sigma>' = calls \<sigma> @ new \<and> new \<noteq> [] \<and> \<not> revise_returned (last new)"
  using assms
proof (induction rule: loop_induct)
  case (finished cur cs0 k \<sigma>)
  then show ?case by simp
next
  case (stopped cur cs0 k \<sigma> ex cs1 \<sigma>1)
  from stopped(2) show ?case
    by (cases rule: body_Stop) auto
next
  case (continued cur cs0 k \<sigma> cur1 cs1 \<sigma>1 ex cur' cs' k' \<sigma>')
  from continued(2) obtain crs where
    b: "calls \<sigma>1 = calls \<sigma> @ [CritiqueCall i cur (Returns (Array crs)),
                            ReviseCall i cur crs s0 (Returns cur1)]"
    by (rule body_Continue)
  from continued(4)[OF continued(5)] obtain new1 where
    n: "calls \<sigma>' = calls \<sigma>1 @ new1" "new1 \<noteq> []" "\<not> revise_returned (last new1)"
    by blast
  let ?new = "[CritiqueCall i cur (Returns (Array crs)),
               ReviseCall i cur crs s0 (Returns cur1)] @ new1"
  have "calls \<sigma>' = calls \<sigma> @ ?new" using n(1) b by simp
  moreover have "?new \<noteq> []" by simp
  moreover have "\<not> revise_returned (last ?new)" using n(2,3) by simp
  ultimately show ?case by blast
qed

lemma run_step_last_call:
  assumes "run_step H i el \<sigma> = (out, \<sigma>')"
    and "new_calls \<sigma> \<sigma>' \<noteq> []" and "revise_returned (last (new_calls \<sigma> \<sigma>'))"
  shows "out = Returns ()"
proof -
  have loop_case: False
    if loop: "critique_revise_loop H i m dl crit rvs (state \<sigma>) ds ds (Array []) 0
         (logged (DraftCall i (state \<sigma>) (Returns ds)) w1 \<sigma>) = (ex, cur', cs', k', \<sigma>')"
      and ex: "ex \<noteq> Exhausted"
    for m dl crit rvs ds w1 ex cur' cs' k'
  proof -
    from loop_last_call[OF loop ex] obtain new where
      n: "calls \<sigma>' = calls (logged (DraftCall i (state \<sigma>) (Returns ds)) w1 \<sigma>) @ new"
        "new \<noteq> []" "\<not> revise_returned (last new)"
      by blast
    have "calls \<sigma>' = calls \<sigma> @ DraftCall i (state \<sigma>) (Returns ds) # new"
      using n(1) by (simp add: logged_def)
    from new_calls_eq[OF this] n(2,3) assms(3) show False by simp
  qed
  from assms(1) show ?thesis
  proof (cases rule: run_step_cases)
    case invalid
    have "new_calls \<sigma> \<sigma>' = []" using invalid(3) by (simp add: new_calls_def push_def)
    with assms(2) show ?thesis by simp
  next
    case (draft_hangs s dr crit rvs w1)
    have "new_calls \<sigma> \<sigma>' = [DraftCall i (state \<sigma>) Hangs]"
      using draft_hangs(7) by (simp add: new_calls_def logged_def)
    with assms(3) show ?thesis by simp
  next
    case (draft_throws s dr crit rvs e w1)
    have "new_calls \<sigma> \<sigma>' = [DraftCall i (state \<sigma>) (Throws e)]"
      using draft_throws(7) by (simp add: new_calls_def logged_def push_def)
    with assms(3) show ?thesis by simp
  next
    case (loop_threw s dr crit rvs ds w1 e cur' cs' k')
    have "Threw e \<noteq> Exhausted" by simp
    from loop_case[OF loop_threw(6) this] show ?thesis ..
  next
    case (loop_hung s dr crit rvs ds w1 cur' cs' k')
    have "Hung \<noteq> Exhausted" by simp
    from loop_case[OF loop_hung(6) this] show ?thesis ..
  next
    case (loop_broke s dr crit rvs ds w1 cur' cs' k')
    then show ?thesis by simp
  next
    case (loop_exhausted s dr crit rvs ds w1 cur' cs' k' \<sigma>2)
    then show ?thesis by simp
  qed
qed

section \<open>The claims about a whole run\<close>

lemmas run_eval =
  execute_def run_step_def critique_revise_loop.simps loop_body_def logged_def push_def Let_def
  clock_host_def returning_def not_three_step_def never_clearing_step_def pass_through_step_def
  malformed_step_def breaking_step_def suspending_step_def
  start_store_def empty_object_def critique_calls_def revise_calls_def progress_phase_def
  new_calls_def new_entries_def iteration_budget_def

text \<open>
  Claim C7. Whatever the steps do and however the run ends, the step indices of
  the audit history are non-decreasing in append order.
\<close>

theorem audit_order_monotonic:
  "sorted (map stepIndex (auditHistory (snd (execute H initialState steps w))))"
proof -
  obtain out \<sigma>' where
    "run_steps H 0 steps \<lparr> auditHistory = [], state = initialState, world = w, calls = [] \<rparr>
       = (out, \<sigma>')"
    by force
  from run_steps_entries[OF this] this show ?thesis by (auto simp: execute_def)
qed

text \<open>
  Claim C1, as stated, fails on the revise count: with \<open>maxIterations = 2\<close> and a
  critique that never clears, the run of the test suite resolves after two
  critique invocations and two revise invocations, one more than \<open>N - 1\<close>.
\<close>

theorem revise_bound_counterexample:
  "maxIterations not_three_step = Some 2 \<and>
   fst (execute clock_host Null [Some not_three_step] 0) = Returns (Value 2) \<and>
   length (critique_calls 0 (calls (snd (execute clock_host Null [Some not_three_step] 0)))) = 2 \<and>
   length (revise_calls 0 (calls (snd (execute clock_host Null [Some not_three_step] 0)))) = 2 \<and>
   \<not> length (revise_calls 0 (calls (snd (execute clock_host Null [Some not_three_step] 0))))
       \<le> 2 - 1"
  by (simp add: run_eval)

text \<open>
  Claim C1, amended. In every run, a step with \<open>maxIterations = N\<close> has at most
  \<open>max 1 N\<close> critique invocations and at most \<open>max 1 N\<close> revise invocations; and
  when the run gets through that step (the steps up to and including it
  complete), the step has exactly one audit entry, whose phase is
  \<open>draft:accepted\<close>, \<open>revise:accepted\<close> or \<open>revise:capped\<close>.
\<close>

theorem iteration_bounds:
  assumes "execute H initialState steps w = (out, \<sigma>')"
    and "k < length steps" and "steps ! k = Some s" and "maxIterations s = Some N"
  shows "length (critique_calls k (calls \<sigma>')) \<le> nat (max 1 N) \<and>
         length (revise_calls k (calls \<sigma>')) \<le> nat (max 1 N) \<and>
         (\<forall>st \<sigma>k. execute H initialState (take (Suc k) steps) w = (Returns st, \<sigma>k) \<longrightarrow>
            (\<exists>e. filter (\<lambda>e. stepIndex e = k) (auditHistory \<sigma>') = [e] \<and>
                 progress_phase (phase e)))"
proof -
  let ?\<sigma>0 = "\<lparr> auditHistory = [], state = initialState, world = w, calls = [] \<rparr>"
  from assms(1) have run: "run_steps H 0 steps ?\<sigma>0 = (out, \<sigma>')" by (simp add: execute_def)
  have b: "iteration_budget s = nat (max 1 N)" using assms(4) by (simp add: iteration_budget_def)
  from run_steps_calls[OF run] assms(2,3) b
  have "length (critique_calls k (calls \<sigma>')) \<le> nat (max 1 N)"
    "length (revise_calls k (calls \<sigma>')) \<le> nat (max 1 N)"
    by auto
  moreover have "\<exists>e. filter (\<lambda>e. stepIndex e = k) (auditHistory \<sigma>') = [e] \<and>
                 progress_phase (phase e)"
    if pre: "execute H initialState (take (Suc k) steps) w = (Returns st, \<sigma>k)" for st \<sigma>k
  proof -
    from pre have p: "run_steps H 0 (take (Suc k) steps) ?\<sigma>0 = (Returns st, \<sigma>k)"
      by (simp add: execute_def)
    have len: "length (take (Suc k) steps) = Suc k" using assms(2) by simp
    from run_steps_entries[OF p] obtain ents0 where
      p1: "auditHistory \<sigma>k = auditHistory ?\<sigma>0 @ ents0"
      and p2: "\<forall>v. Returns st = Returns v \<longrightarrow>
              (\<forall>j<length (take (Suc k) steps).
                 \<exists>e. filter (\<lambda>e. stepIndex e = 0 + j) ents0 = [e] \<and> progress_phase (phase e))"
      by blast
    from p1 have ents0: "ents0 = auditHistory \<sigma>k" by simp
    from p2 have "\<forall>j<Suc k. \<exists>e. filter (\<lambda>e. stepIndex e = 0 + j) ents0 = [e] \<and>
                                progress_phase (phase e)"
      unfolding len by simp
    then have "\<exists>e. filter (\<lambda>e. stepIndex e = 0 + k) ents0 = [e] \<and> progress_phase (phase e)"
      by blast
    then obtain e where
      e: "filter (\<lambda>e. stepIndex e = k) (auditHistory \<sigma>k) = [e]" "progress_phase (phase e)"
      unfolding ents0 by auto
    have "run_steps H 0 (take (Suc k) steps @ drop (Suc k) steps) ?\<sigma>0
            = run_steps H (Suc k) (drop (Suc k) steps) \<sigma>k"
      by (simp only: run_steps_append p len) simp
    with run have "run_steps H (Suc k) (drop (Suc k) steps) \<sigma>k = (out, \<sigma>')" by simp
    from run_steps_entries[OF this] obtain ents where
      r: "auditHistory \<sigma>' = auditHistory \<sigma>k @ ents" "\<forall>e\<in>set ents. Suc k \<le> stepIndex e"
      by blast
    from r(2) have "filter (\<lambda>e. stepIndex e = k) ents = []"
      by (auto simp: filter_empty_conv)
    with r(1) e show ?thesis by simp
  qed
  ultimately show ?thesis by blast
qed

theorem iteration_bounds_witness:
  "(0::nat) < length [Some not_three_step] \<and> [Some not_three_step] ! 0 = Some not_three_step \<and>
   maxIterations not_three_step = Some 2 \<and>
   fst (execute clock_host Null (take (Suc 0) [Some not_three_step]) 0) = Returns (Value 2) \<and>
   length (critique_calls 0 (calls (snd (execute clock_host Null [Some not_three_step] 0))))
     \<le> nat (max 1 2) \<and>
   length (revise_calls 0 (calls (snd (execute clock_host Null [Some not_three_step] 0))))
     \<le> nat (max 1 2) \<and>
   (\<exists>e. filter (\<lambda>e. stepIndex e = 0)
           (auditHistory (snd (execute clock_host Null [Some not_three_step] 0))) = [e] \<and>
        progress_phase (phase e))"
proof -
  have h: "execute clock_host Null [Some not_three_step] 0 =
             (Returns (Value 2), snd (execute clock_host Null [Some not_three_step] 0))"
    by (simp add: run_eval)
  have f: "fst (execute clock_host Null (take (Suc 0) [Some not_three_step]) 0)
             = Returns (Value 2)"
    by (simp add: run_eval)
  have p: "execute clock_host Null (take (Suc 0) [Some not_three_step]) 0 =
             (Returns (Value 2), snd (execute clock_host Null [Some not_three_step] 0))"
    by (simp add: run_eval)
  have m: "maxIterations not_three_step = Some 2" by (simp add: not_three_step_def)
  have "(0::nat) < length [Some not_three_step]"
    "[Some not_three_step] ! 0 = Some not_three_step" by simp_all
  note ib = iteration_bounds[OF h this m]
  note c1 = ib[THEN conjunct1]
  note c2 = ib[THEN conjunct2, THEN conjunct1]
  note c3 = ib[THEN conjunct2, THEN conjunct2, THEN spec, THEN spec, THEN mp, OF p]
  from c1 c2 c3 f m show ?thesis by simp
qed

text \<open>
  Claim C6. When the element at index \<open>i\<close> is a step that lacks a callable draft,
  critique or revise, and the run of the steps before it resolves to the state
  \<open>st\<close>, the whole run is rejected with the TypeError whose message names
  \<open>i\<close>; its store is the one the earlier steps left, plus one entry of phase
  \<open>invalid\<close> with \<open>inputState = st\<close>. No capability of a later step is invoked,
  no entry has a step index above \<open>i\<close>, and no other index has the same message.
\<close>

theorem invalid_step_fails_run:
  assumes "i < length steps" and "steps ! i = Some s"
    and "draft s = None \<or> critique s = None \<or> revise s = None"
    and "execute H initialState (take i steps) w = (Returns st, \<sigma>)"
  shows "execute H initialState steps w =
           (Throws (TypeError (invalid_message i)),
            push \<lparr> stepIndex = i, ts = Date_now H (world \<sigma>), phase = ''invalid'',
                   error = Some (invalid_message i), inputState = st,
                   draftState = Undefined, critiques = None, finalState = Undefined,
                   iterations = None \<rparr> \<sigma>) \<and>
         (\<forall>e\<in>set (auditHistory (snd (execute H initialState steps w))). stepIndex e \<le> i) \<and>
         calls (snd (execute H initialState steps w)) = calls \<sigma> \<and>
         (\<forall>j. invalid_message j = invalid_message i \<longrightarrow> j = i)"
proof -
  have el: "steps ! i = None \<or>
             (\<exists>s. steps ! i = Some s \<and> (draft s = None \<or> critique s = None \<or> revise s = None))"
    using assms(2,3) by simp
  from invalid_element_fails_run[OF assms(1) el assms(4)] show ?thesis
    by (auto simp: push_def less_imp_le invalid_message_inj)
qed

theorem invalid_step_fails_run_witness:
  "(1::nat) < length [Some pass_through_step, Some malformed_step, Some not_three_step] \<and>
   [Some pass_through_step, Some malformed_step, Some not_three_step] ! 1 = Some malformed_step \<and>
   draft malformed_step = None \<and>
   fst (execute clock_host Null
          (take 1 [Some pass_through_step, Some malformed_step, Some not_three_step]) 0)
     = Returns (Value 1) \<and>
   fst (execute clock_host Null
          [Some pass_through_step, Some malformed_step, Some not_three_step] 0)
     = Throws (TypeError ''Step 1 is invalid. Expected functions: draft, critique, revise.'') \<and>
   map phase (auditHistory (snd (execute clock_host Null
          [Some pass_through_step, Some malformed_step, Some not_three_step] 0)))
     = [''draft:accepted'', ''invalid'']"
proof -
  let ?steps = "[Some pass_through_step, Some malformed_step, Some not_three_step]"
  have h: "execute clock_host Null (take 1 ?steps) 0 =
             (Returns (Value 1), snd (execute clock_host Null (take 1 ?steps) 0))"
    by (simp add: run_eval)
  have d: "draft malformed_step = None \<or> critique malformed_step = None
             \<or> revise malformed_step = None"
    by (simp add: malformed_step_def)
  have m: "invalid_message (Suc 0)
             = ''Step 1 is invalid. Expected functions: draft, critique, revise.''"
    by code_simp
  from invalid_step_fails_run[of 1 ?steps malformed_step clock_host Null 0 "Value 1", OF _ _ d h]
  show ?thesis by (simp add: m) (simp add: run_eval)
qed

text \<open>
  Claim C9. When the element at index \<open>i\<close> is \<open>null\<close> or \<open>undefined\<close>, the
  destructuring reads the empty object instead, so the run does not crash on a
  property access: it ends exactly as for a step that lacks a capability.
\<close>

theorem null_step_fails_run:
  assumes "i < length steps" and "steps ! i = None"
    and "execute H initialState (take i steps) w = (Returns st, \<sigma>)"
  shows "execute H initialState steps w =
           (Throws (TypeError (invalid_message i)),
            push \<lparr> stepIndex = i, ts = Date_now H (world \<sigma>), phase = ''invalid'',
                   error = Some (invalid_message i), inputState = st,
                   draftState = Undefined, critiques = None, finalState = Undefined,
                   iterations = None \<rparr> \<sigma>) \<and>
         (\<forall>e\<in>set (auditHistory (snd (execute H initialState steps w))). stepIndex e \<le> i) \<and>
         calls (snd (execute H initialState steps w)) = calls \<sigma> \<and>
         (\<forall>j. invalid_message j = invalid_message i \<longrightarrow> j = i)"
proof -
  have el: "steps ! i = None \<or>
             (\<exists>s. steps ! i = Some s \<and> (draft s = None \<or> critique s = None \<or> revise s = None))"
    using assms(2) by simp
  from invalid_element_fails_run[OF assms(1) el assms(3)] show ?thesis
    by (auto simp: push_def less_imp_le invalid_message_inj)
qed

theorem null_step_fails_run_witness:
  "(1::nat) < length [Some pass_through_step, None, Some not_three_step] \<and>
   [Some pass_through_step, None, Some not_three_step] ! 1 = None \<and>
   fst (execute clock_host Null (take 1 [Some pass_through_step, None, Some not_three_step]) 0)
     = Returns (Value 1) \<and>
   fst (execute clock_host Null [Some pass_through_step, None, Some not_three_step] 0)
     = Throws (TypeError ''Step 1 is invalid. Expected functions: draft, critique, revise.'') \<and>
   map phase (auditHistory (snd (execute clock_host Null
          [Some pass_through_step, None, Some not_three_step] 0)))
     = [''draft:accepted'', ''invalid'']"
proof -
  let ?steps = "[Some pass_through_step, None, Some not_three_step]"
  have h: "execute clock_host Null (take 1 ?steps) 0 =
             (Returns (Value 1), snd (execute clock_host Null (take 1 ?steps) 0))"
    by (simp add: run_eval)
  have m: "invalid_message (Suc 0)
             = ''Step 1 is invalid. Expected functions: draft, critique, revise.''"
    by code_simp
  from null_step_fails_run[of 1 ?steps clock_host Null 0 "Value 1", OF _ _ h]
  show ?thesis by (simp add: m) (simp add: run_eval)
qed

section \<open>The claims about one step\<close>

text \<open>A step of a run is \<open>run_step H i element \<sigma>\<close> for the store \<open>\<sigma>\<close> the earlier steps
  left; the theorems below hold for every store.\<close>

lemma last_critique_result_tail1:
  "last_critique_result (xs @ [CritiqueCall i c r]) = Some r"
  by (simp add: last_critique_result_append)

lemma last_critique_result_tail2:
  "last_critique_result (xs @ [CritiqueCall i c r, ReviseCall j c' cs s0 r']) = Some r"
  by (simp add: last_critique_result_append)

lemma never_clears_step:
  assumes caps: "draft s = Some dr" "critique s = Some crit" "revise s = Some rvs"
    and dr: "\<forall>x w. \<exists>y w'. dr x w = (Returns y, w')"
    and crit: "\<forall>x w. \<exists>cs w'. crit x w = (Returns (Array cs), w') \<and> cs \<noteq> []"
    and rvs: "\<forall>x cs x0 w. \<exists>y w'. rvs x cs x0 w = (Returns y, w')"
  shows "\<exists>\<sigma>' e. run_step H i (Some s) \<sigma> = (Returns (), \<sigma>') \<and>
                auditHistory \<sigma>' = auditHistory \<sigma> @ [e] \<and> phase e = ''revise:capped'' \<and>
                iterations e = Some (iteration_budget s)"
proof -
  obtain out \<sigma>' where run: "run_step H i (Some s) \<sigma> = (out, \<sigma>')" by force
  from run show ?thesis
  proof (cases rule: run_step_cases)
    case invalid
    with caps show ?thesis by simp
  next
    case (draft_hangs s' dr' crit' rvs' w1)
    with caps dr show ?thesis by (metis Pair_inject option.inject outcome.distinct(3))
  next
    case (draft_throws s' dr' crit' rvs' e w1)
    with caps dr show ?thesis by (metis Pair_inject option.inject outcome.distinct(1))
  next
    case (loop_threw s' dr' crit' rvs' ds w1 e cur' cs' k')
    from loop_threw(1-4) caps have "crit' = crit" "rvs' = rvs" by simp_all
    with never_clears_exhausts[OF loop_threw(6)] crit rvs show ?thesis by simp
  next
    case (loop_hung s' dr' crit' rvs' ds w1 cur' cs' k')
    from loop_hung(1-4) caps have "crit' = crit" "rvs' = rvs" by simp_all
    with never_clears_exhausts[OF loop_hung(6)] crit rvs show ?thesis by simp
  next
    case (loop_broke s' dr' crit' rvs' ds w1 cur' cs' k')
    from loop_broke(1-4) caps have "crit' = crit" "rvs' = rvs" by simp_all
    with never_clears_exhausts[OF loop_broke(6)] crit rvs show ?thesis by simp
  next
    case (loop_exhausted s' dr' crit' rvs' ds w1 cur' cs' k' \<sigma>2)
    have "int 0 < max 1 (case maxIterations s' of None \<Rightarrow> 3 | Some m \<Rightarrow> m)" by simp
    from loop_Exhausted[OF loop_exhausted(6) this]
    have x: "k' = iteration_budget s'" "auditHistory \<sigma>2 = auditHistory \<sigma>"
      by (simp_all add: budget_max logged_def)
    from loop_exhausted(1) have "s' = s" by simp
    with run loop_exhausted(7,8) x show ?thesis by (simp add: push_def)
  qed
qed

text \<open>
  Claim C3, as stated, fails in two ways. First, a step can use up its budget
  of critique invocations with issues still reported and yet append no
  \<open>revise:capped\<close> entry: when the revise that follows the last critique throws,
  the entry is \<open>revise:error\<close>, the candidate is not adopted and the run is
  rejected. Second, with \<open>maxIterations = 2\<close> a critique that suspends (an
  \<open>async\<close> function) hands back a promise, which is not awaited and counts as
  no issues: the run resolves with \<open>draft:accepted\<close> and 0 iterations, whatever
  the promise holds.
\<close>

theorem cap_and_proceed_counterexample:
  "length (filter is_critique_call
     (new_calls start_store (snd (run_step clock_host 0 (Some breaking_step) start_store))))
     = iteration_budget breaking_step \<and>
   last_critique_result
     (new_calls start_store (snd (run_step clock_host 0 (Some breaking_step) start_store)))
     = Some (Returns (Array [''unresolved''])) \<and>
   has_issues (or_empty (Array [''unresolved''])) \<and>
   fst (run_step clock_host 0 (Some breaking_step) start_store)
     = Throws (ErrorObject ''cannot revise'') \<and>
   map phase (new_entries start_store
                (snd (run_step clock_host 0 (Some breaking_step) start_store)))
     = [''revise:error''] \<and>
   state (snd (run_step clock_host 0 (Some breaking_step) start_store)) = Null \<and>
   fst (execute clock_host Null [Some breaking_step] 0) = Throws (ErrorObject ''cannot revise'') \<and>
   maxIterations suspending_step = Some 2 \<and>
   fst (execute clock_host Null [Some suspending_step] 0) = Returns (Value 0) \<and>
   map phase (auditHistory (snd (execute clock_host Null [Some suspending_step] 0)))
     = [''draft:accepted''] \<and>
   map iterations (auditHistory (snd (execute clock_host Null [Some suspending_step] 0)))
     = [Some 0]"
  by (simp add: run_eval)

text \<open>
  Claim C3, amended. A step that has used up its budget of critique
  invocations, whose last critique returned issues as an array, and whose
  revise after that critique returned, completes; it appends exactly one entry,
  of phase \<open>revise:capped\<close>, with the state the step started from as
  \<open>inputState\<close>, the drafted state, the issues of that last critique, the value
  returned by the last revise as \<open>finalState\<close> and the budget as \<open>iterations\<close>;
  that value becomes the state of the run, and the run goes on with the next
  step. In particular a single step with \<open>maxIterations = 2\<close>, whose critique
  returns a non-empty array of issues on every call, without suspending, and
  whose draft and revise always return, resolves with an entry \<open>revise:capped\<close>
  of 2 iterations.
\<close>

theorem cap_and_proceed:
  "(run_step H i (Some s) \<sigma> = (out, \<sigma>') \<and>
    length (filter is_critique_call (new_calls \<sigma> \<sigma>')) = iteration_budget s \<and>
    last_critique_result (new_calls \<sigma> \<sigma>') = Some (Returns v) \<and> has_issues (or_empty v) \<and>
    revise_returned (last (new_calls \<sigma> \<sigma>')) \<longrightarrow>
      out = Returns () \<and>
      (\<exists>ds pre c.
         new_calls \<sigma> \<sigma>' = DraftCall i (state \<sigma>) (Returns ds) # pre @
           [CritiqueCall i c (Returns v),
            ReviseCall i c (issues_of v) (state \<sigma>) (Returns (state \<sigma>'))] \<and>
         new_entries \<sigma> \<sigma>' =
           [\<lparr> stepIndex = i, ts = Date_now H (world \<sigma>'), phase = ''revise:capped'',
               error = None, inputState = state \<sigma>, draftState = ds,
               critiques = Some (issues_of v), finalState = state \<sigma>',
               iterations = Some (iteration_budget s) \<rparr>]) \<and>
      run_steps H i (Some s # rest) \<sigma> = run_steps H (Suc i) rest \<sigma>') \<and>
   (draft s2 = Some dr \<and> critique s2 = Some crit \<and> revise s2 = Some rvs \<and>
    maxIterations s2 = Some 2 \<and>
    (\<forall>x w. \<exists>y w'. dr x w = (Returns y, w')) \<and>
    (\<forall>x w. \<exists>cs w'. crit x w = (Returns (Array cs), w') \<and> cs \<noteq> []) \<and>
    (\<forall>x cs x0 w. \<exists>y w'. rvs x cs x0 w = (Returns y, w')) \<longrightarrow>
      (\<exists>st \<sigma>2 e. execute H initialState [Some s2] w = (Returns st, \<sigma>2) \<and>
                  auditHistory \<sigma>2 = [e] \<and> phase e = ''revise:capped'' \<and>
                  iterations e = Some 2))"
proof (intro conjI impI)
  assume a: "run_step H i (Some s) \<sigma> = (out, \<sigma>') \<and>
    length (filter is_critique_call (new_calls \<sigma> \<sigma>')) = iteration_budget s \<and>
    last_critique_result (new_calls \<sigma> \<sigma>') = Some (Returns v) \<and> has_issues (or_empty v) \<and>
    revise_returned (last (new_calls \<sigma> \<sigma>'))"
  then have run0: "run_step H i (Some s) \<sigma> = (out, \<sigma>')"
    and used: "length (filter is_critique_call (new_calls \<sigma> \<sigma>')) = iteration_budget s"
    and last: "last_critique_result (new_calls \<sigma> \<sigma>') = Some (Returns v)"
    and iss: "has_issues (or_empty v)"
    and rr: "revise_returned (last (new_calls \<sigma> \<sigma>'))" by simp_all
  from used budget_pos[of s] have "new_calls \<sigma> \<sigma>' \<noteq> []" by auto
  from run_step_last_call[OF run0 this rr] show out: "out = Returns ()" .
  with run0 have run: "run_step H i (Some s) \<sigma> = (Returns (), \<sigma>')" by simp
  from iss have v: "v = Array (issues_of v)" "issues_of v \<noteq> []" by (cases v; simp)+
  from run show "\<exists>ds pre c.
         new_calls \<sigma> \<sigma>' = DraftCall i (state \<sigma>) (Returns ds) # pre @
           [CritiqueCall i c (Returns v),
            ReviseCall i c (issues_of v) (state \<sigma>) (Returns (state \<sigma>'))] \<and>
         new_entries \<sigma> \<sigma>' =
           [\<lparr> stepIndex = i, ts = Date_now H (world \<sigma>'), phase = ''revise:capped'',
               error = None, inputState = state \<sigma>, draftState = ds,
               critiques = Some (issues_of v), finalState = state \<sigma>',
               iterations = Some (iteration_budget s) \<rparr>]"
  proof (cases rule: run_step_outcome)
    case failed
    then show ?thesis by simp
  next
    case (accepted s' ds pre v0 k)
    from new_calls_eq[OF accepted(3)] last have "v0 = v"
      by (simp add: last_critique_result_Draft last_critique_result_tail1)
    with accepted(4) iss show ?thesis by (simp add: has_issues_iff)
  next
    case (capped s' ds pre c crs)
    from capped(1) have s': "s' = s" by simp
    note nc = new_calls_eq[OF capped(3)]
    from nc last have vv: "v = Array crs"
      by (simp add: last_critique_result_Draft last_critique_result_tail2)
    then have io: "issues_of v = crs" by simp
    have "new_calls \<sigma> \<sigma>' = DraftCall i (state \<sigma>) (Returns ds) # pre @
           [CritiqueCall i c (Returns v),
            ReviseCall i c (issues_of v) (state \<sigma>) (Returns (state \<sigma>'))]"
      using nc vv by simp
    moreover have "new_entries \<sigma> \<sigma>' =
           [\<lparr> stepIndex = i, ts = Date_now H (world \<sigma>'), phase = ''revise:capped'',
               error = None, inputState = state \<sigma>, draftState = ds,
               critiques = Some (issues_of v), finalState = state \<sigma>',
               iterations = Some (iteration_budget s) \<rparr>]"
      using new_entries_eq[OF capped(7)] io s' by simp
    ultimately show ?thesis by blast
  qed
  from run show "run_steps H i (Some s # rest) \<sigma> = run_steps H (Suc i) rest \<sigma>'"
    by simp
next
  assume b: "draft s2 = Some dr \<and> critique s2 = Some crit \<and> revise s2 = Some rvs \<and>
    maxIterations s2 = Some 2 \<and>
    (\<forall>x w. \<exists>y w'. dr x w = (Returns y, w')) \<and>
    (\<forall>x w. \<exists>cs w'. crit x w = (Returns (Array cs), w') \<and> cs \<noteq> []) \<and>
    (\<forall>x cs x0 w. \<exists>y w'. rvs x cs x0 w = (Returns y, w'))"
  let ?\<sigma>0 = "\<lparr> auditHistory = [], state = initialState, world = w, calls = [] \<rparr>"
  from b have bud: "iteration_budget s2 = 2" by (simp add: iteration_budget_def)
  from b never_clears_step[of s2 dr crit rvs H 0 ?\<sigma>0] obtain \<sigma>2 e where
    r: "run_step H 0 (Some s2) ?\<sigma>0 = (Returns (), \<sigma>2)" "auditHistory \<sigma>2 = [e]"
      "phase e = ''revise:capped''" "iterations e = Some (iteration_budget s2)"
    by auto
  have "execute H initialState [Some s2] w = (Returns (state \<sigma>2), \<sigma>2)"
    using r(1) by (simp add: execute_def)
  with r(2,3,4) bud show "\<exists>st \<sigma>2 e. execute H initialState [Some s2] w = (Returns st, \<sigma>2) \<and>
                  auditHistory \<sigma>2 = [e] \<and> phase e = ''revise:capped'' \<and>
                  iterations e = Some 2"
    by auto
qed

theorem cap_and_proceed_witness:
  "length (filter is_critique_call
     (new_calls start_store (snd (run_step clock_host 0 (Some not_three_step) start_store))))
     = iteration_budget not_three_step \<and>
   revise_returned
     (last (new_calls start_store (snd (run_step clock_host 0 (Some not_three_step) start_store)))) \<and>
   fst (run_step clock_host 0 (Some not_three_step) start_store) = Returns () \<and>
   last_critique_result
     (new_calls start_store (snd (run_step clock_host 0 (Some not_three_step) start_store)))
     = Some (Returns (Array [''not three''])) \<and>
   has_issues (or_empty (Array [''not three''])) \<and>
   new_entries start_store (snd (run_step clock_host 0 (Some not_three_step) start_store))
     = [\<lparr> stepIndex = 0, ts = 5, phase = ''revise:capped'', error = None, inputState = Null,
          draftState = Value 0, critiques = Some [''not three''], finalState = Value 2,
          iterations = Some 2 \<rparr>] \<and>
   state (snd (run_step clock_host 0 (Some not_three_step) start_store)) = Value 2 \<and>
   draft never_clearing_step = Some (\<lambda>s. returning (Value 0)) \<and>
   critique never_clearing_step = Some (\<lambda>s. returning (Array [''unresolved''])) \<and>
   revise never_clearing_step
     = Some (\<lambda>s cs s0. returning (case s of Value v \<Rightarrow> Value (v + 1) | _ \<Rightarrow> s)) \<and>
   maxIterations never_clearing_step = Some 2 \<and>
   (\<forall>(x::int jsval) w. \<exists>y w'. returning (Value (0::int)) w = (Returns y, w')) \<and>
   (\<forall>(x::int jsval) w. \<exists>cs w'. returning (Array [''unresolved'']) w = (Returns (Array cs), w')
                                 \<and> cs \<noteq> []) \<and>
   (\<forall>(x::int jsval) (cs::string list) (x0::int jsval) w. \<exists>y w'.
       returning (case x of Value v \<Rightarrow> Value (v + 1) | _ \<Rightarrow> x) w = (Returns y, w')) \<and>
   fst (execute clock_host Null [Some never_clearing_step] 0) = Returns (Value 2) \<and>
   map phase (auditHistory (snd (execute clock_host Null [Some never_clearing_step] 0)))
     = [''revise:capped''] \<and>
   map iterations (auditHistory (snd (execute clock_host Null [Some never_clearing_step] 0)))
     = [Some 2]"
  using cap_and_proceed[where H = clock_host and i = 0 and s = not_three_step
      and \<sigma> = start_store
      and out = "fst (run_step clock_host 0 (Some not_three_step) start_store)"
      and \<sigma>' = "snd (run_step clock_host 0 (Some not_three_step) start_store)"
      and v = "Array [''not three'']" and rest = "[]" and ?s2.0 = never_clearing_step
      and dr = "\<lambda>s. returning (Value 0)"
      and crit = "\<lambda>s. returning (Array [''unresolved''])"
      and rvs = "\<lambda>s cs s0. returning (case s of Value v \<Rightarrow> Value (v + 1) | _ \<Rightarrow> s)"
      and initialState = Null and w = 0]
  by (simp add: run_eval)

text \<open>
  Claim C4. When the critique invocation that uses up the budget of a step
  reports no issues, the step completes with exactly one entry, \<open>draft:accepted\<close>
  if the budget is one iteration and \<open>revise:accepted\<close> otherwise, with
  \<open>iterations\<close> one below the budget, and with no entry \<open>revise:capped\<close>. In
  particular, when \<open>maxIterations\<close> is below 1 or equal to it, the entry is
  \<open>draft:accepted\<close>.
\<close>

theorem clean_final_critique_accepts:
  assumes "run_step H i (Some s) \<sigma> = (out, \<sigma>')"
    and "last_critique_result (new_calls \<sigma> \<sigma>') = Some (Returns v)"
    and "no_issues (or_empty v)"
    and "length (filter is_critique_call (new_calls \<sigma> \<sigma>')) = iteration_budget s"
  shows "out = Returns () \<and>
         (\<exists>e. new_entries \<sigma> \<sigma>' = [e] \<and>
              phase e = (if iteration_budget s = 1 then ''draft:accepted''
                         else ''revise:accepted'') \<and>
              iterations e = Some (iteration_budget s - 1) \<and> critiques e = Some [] \<and>
              finalState e = state \<sigma>' \<and> phase e \<noteq> ''revise:capped'' \<and>
              (\<forall>n. maxIterations s = Some n \<longrightarrow> n \<le> 1 \<longrightarrow> phase e = ''draft:accepted''))"
  using assms(1)
proof (cases rule: run_step_outcome)
  case failed
  with assms(2,3) show ?thesis by simp
next
  case (capped s' ds pre c crs)
  from new_calls_eq[OF capped(3)] assms(2) have "v = Array crs"
    by (simp add: last_critique_result_Draft last_critique_result_tail2)
  with capped(4) assms(3) show ?thesis by simp
next
  case (accepted s' ds pre v0 k)
  from accepted(1) have s': "s' = s" by simp
  from new_calls_eq[OF accepted(3)] assms(4) accepted(5)
  have k: "Suc k = iteration_budget s" by simp
  then have k1: "k = iteration_budget s - 1" and k0: "k = 0 \<longleftrightarrow> iteration_budget s = 1"
    by linarith+
  have small: "iteration_budget s = 1" if "maxIterations s = Some n" "n \<le> 1" for n
    using that by (simp add: iteration_budget_def max_def)
  let ?e = "\<lparr> stepIndex = i, ts = Date_now H (world \<sigma>'),
             phase = (if k = 0 then ''draft:accepted'' else ''revise:accepted''),
             error = None, inputState = state \<sigma>, draftState = ds, critiques = Some [],
             finalState = state \<sigma>', iterations = Some k \<rparr>"
  have "new_entries \<sigma> \<sigma>' = [?e]" using new_entries_eq[OF accepted(8)] .
  moreover have "phase ?e = (if iteration_budget s = 1 then ''draft:accepted''
                         else ''revise:accepted'')" using k0 by simp
  moreover have "iterations ?e = Some (iteration_budget s - 1)" using k1 by simp
  moreover have "critiques ?e = Some []" "finalState ?e = state \<sigma>'"
    "phase ?e \<noteq> ''revise:capped''" by simp_all
  moreover have "\<forall>n. maxIterations s = Some n \<longrightarrow> n \<le> 1 \<longrightarrow> phase ?e = ''draft:accepted''"
    using small k0 by simp
  ultimately show ?thesis using accepted(2) by blast
qed

theorem clean_final_critique_accepts_witness:
  "last_critique_result
     (new_calls start_store
        (snd (run_step clock_host 0 (Some (not_three_step\<lparr>maxIterations := Some 4\<rparr>)) start_store)))
     = Some (Returns (Array [])) \<and>
   no_issues (or_empty (Array ([] :: string list))) \<and>
   length (filter is_critique_call
     (new_calls start_store
        (snd (run_step clock_host 0 (Some (not_three_step\<lparr>maxIterations := Some 4\<rparr>)) start_store))))
     = iteration_budget (not_three_step\<lparr>maxIterations := Some 4\<rparr>) \<and>
   fst (run_step clock_host 0 (Some (not_three_step\<lparr>maxIterations := Some 4\<rparr>)) start_store)
     = Returns () \<and>
   new_entries start_store
     (snd (run_step clock_host 0 (Some (not_three_step\<lparr>maxIterations := Some 4\<rparr>)) start_store))
     = [\<lparr> stepIndex = 0, ts = 8, phase = ''revise:accepted'', error = None, inputState = Null,
          draftState = Value 0, critiques = Some [], finalState = Value 3,
          iterations = Some 3 \<rparr>]"
  using clean_final_critique_accepts[where H = clock_host and i = 0
      and s = "not_three_step\<lparr>maxIterations := Some 4\<rparr>" and \<sigma> = start_store
      and out = "fst (run_step clock_host 0 (Some (not_three_step\<lparr>maxIterations := Some 4\<rparr>))
                        start_store)"
      and \<sigma>' = "snd (run_step clock_host 0 (Some (not_three_step\<lparr>maxIterations := Some 4\<rparr>))
                        start_store)"
      and v = "Array []"]
  by (simp add: run_eval)

text \<open>
  Claim C8. For a step whose critique never reports an issue (it returns a falsy
  value, a value that is not an array, or an empty array), revise is not
  invoked; and when the step is valid and its draft returns, so that the loop
  is entered, the step appends one entry, of phase \<open>draft:accepted\<close> with 0
  iterations, whose final state is the draft.
\<close>

theorem pass_through:
  assumes "critique s = Some crit"
    and "\<forall>x w. \<exists>v w'. crit x w = (Returns v, w') \<and> no_issues (or_empty v)"
    and "run_step H i (Some s) \<sigma> = (out, \<sigma>')"
  shows "filter is_revise_call (new_calls \<sigma> \<sigma>') = [] \<and>
         (\<forall>dr rvs ds w1.
            draft s = Some dr \<and> revise s = Some rvs \<and>
            dr (state \<sigma>) (world \<sigma>) = (Returns ds, w1) \<longrightarrow>
              out = Returns () \<and>
              new_entries \<sigma> \<sigma>' =
                [\<lparr> stepIndex = i, ts = Date_now H (world \<sigma>'), phase = ''draft:accepted'',
                    error = None, inputState = state \<sigma>, draftState = ds,
                    critiques = Some [], finalState = ds, iterations = Some 0 \<rparr>] \<and>
              state \<sigma>' = ds)"
proof -
  have broke: "filter is_revise_call (new_calls \<sigma> \<sigma>') = [] \<and>
         new_entries \<sigma> \<sigma>' =
           [\<lparr> stepIndex = i, ts = Date_now H (world \<sigma>'), phase = ''draft:accepted'',
               error = None, inputState = state \<sigma>, draftState = ds, critiques = Some [],
               finalState = ds, iterations = Some 0 \<rparr>] \<and>
         state \<sigma>' = ds \<and> ex = Broke"
    if loop: "critique_revise_loop H i m dl crit rvs (state \<sigma>) ds ds (Array []) 0
         (logged (DraftCall i (state \<sigma>) (Returns ds)) w1 \<sigma>) = (ex, cur', cs', k', \<sigma>')"
    for m dl rvs ds w1 ex cur' cs' k'
  proof -
    let ?\<sigma>1 = "logged (DraftCall i (state \<sigma>) (Returns ds)) w1 \<sigma>"
    have k0: "int 0 < max 1 m" by simp
    from always_clean_breaks[OF loop assms(2) k0] obtain v where
      a: "ex = Broke" "k' = 0" "cur' = ds" "calls \<sigma>' = calls ?\<sigma>1 @ [CritiqueCall i ds (Returns v)]"
      by blast
    from loop_Broke[OF loop[unfolded a(1)]] a(2,3)
    have b: "state \<sigma>' = ds" "auditHistory \<sigma>' = auditHistory ?\<sigma>1 @
           [\<lparr> stepIndex = i, ts = Date_now H (world \<sigma>'), phase = ''draft:accepted'',
               error = None, inputState = state \<sigma>, draftState = ds, critiques = Some [],
               finalState = ds, iterations = Some 0 \<rparr>]"
      by simp_all
    have "new_calls \<sigma> \<sigma>' = [DraftCall i (state \<sigma>) (Returns ds), CritiqueCall i ds (Returns v)]"
      using a(4) by (intro new_calls_eq) (simp add: logged_def)
    moreover have "new_entries \<sigma> \<sigma>' =
           [\<lparr> stepIndex = i, ts = Date_now H (world \<sigma>'), phase = ''draft:accepted'',
               error = None, inputState = state \<sigma>, draftState = ds, critiques = Some [],
               finalState = ds, iterations = Some 0 \<rparr>]"
      using b(2) by (intro new_entries_eq) (simp add: logged_def)
    ultimately show ?thesis using b(1) a(1) by simp
  qed
  from assms(3) show ?thesis
  proof (cases rule: run_step_cases)
    case invalid
    have "new_calls \<sigma> \<sigma>' = []" using invalid(3) by (simp add: new_calls_def push_def)
    with invalid(1) assms(1) show ?thesis by auto
  next
    case (draft_hangs s' dr' crit' rvs' w1')
    have "new_calls \<sigma> \<sigma>' = [DraftCall i (state \<sigma>) Hangs]"
      using draft_hangs(7) by (simp add: new_calls_def logged_def)
    with draft_hangs(1,2,5) show ?thesis by auto
  next
    case (draft_throws s' dr' crit' rvs' e w1')
    have "new_calls \<sigma> \<sigma>' = [DraftCall i (state \<sigma>) (Throws e)]"
      using draft_throws(7) by (simp add: new_calls_def logged_def push_def)
    with draft_throws(1,2,5) show ?thesis by auto
  next
    case (loop_threw s' dr' crit' rvs' ds' w1' e cur' cs' k')
    with assms(1) have "crit' = crit" by simp
    with broke[OF loop_threw(6)[unfolded this]] show ?thesis by simp
  next
    case (loop_hung s' dr' crit' rvs' ds' w1' cur' cs' k')
    with assms(1) have "crit' = crit" by simp
    with broke[OF loop_hung(6)[unfolded this]] show ?thesis by simp
  next
    case (loop_broke s' dr' crit' rvs' ds' w1' cur' cs' k')
    with assms(1) have c: "crit' = crit" by simp
    from broke[OF loop_broke(6)[unfolded c]] loop_broke(1,2,5,7) show ?thesis by auto
  next
    case (loop_exhausted s' dr' crit' rvs' ds' w1' cur' cs' k' \<sigma>2)
    with assms(1) have c: "crit' = crit" by simp
    have k0: "int 0 < max 1 (case maxIterations s' of None \<Rightarrow> 3 | Some m \<Rightarrow> m)" by simp
    from always_clean_breaks[OF loop_exhausted(6)[unfolded c] assms(2) k0] show ?thesis by simp
  qed
qed

theorem pass_through_witness:
  "critique pass_through_step = Some (\<lambda>s. returning (Array [])) \<and>
   (\<forall>x w. \<exists>v w'. returning (Array ([] :: string list)) w = (Returns v, w') \<and> no_issues (or_empty v)) \<and>
   draft pass_through_step = Some (\<lambda>s. returning (Value 1)) \<and>
   revise pass_through_step = Some (\<lambda>s cs s0. returning (Value 99)) \<and>
   returning (Value 1) (world start_store) = (Returns (Value (1::int)), 1) \<and>
   filter is_revise_call
     (new_calls start_store (snd (run_step clock_host 0 (Some pass_through_step) start_store))) = [] \<and>
   fst (run_step clock_host 0 (Some pass_through_step) start_store) = Returns () \<and>
   new_entries start_store (snd (run_step clock_host 0 (Some pass_through_step) start_store))
     = [\<lparr> stepIndex = 0, ts = 2, phase = ''draft:accepted'', error = None, inputState = Null,
          draftState = Value 1, critiques = Some [], finalState = Value 1,
          iterations = Some 0 \<rparr>]"
  using pass_through[where s = pass_through_step
      and crit = "\<lambda>s. returning (Array [])"
      and \<sigma> = start_store and H = clock_host and i = 0
      and out = "fst (run_step clock_host 0 (Some pass_through_step) start_store)"
      and \<sigma>' = "snd (run_step clock_host 0 (Some pass_through_step) start_store)"]
  by (simp add: run_eval)

text \<open>
  Claim C10. For every entry of phase \<open>revise:capped\<close> in the audit history of a
  run, the log of the run holds, for the step of the entry, a critique
  invocation on a candidate \<open>c\<close> that returned the issues recorded in the entry,
  followed at once by the revise invocation on \<open>c\<close> with those issues that
  returned the entry's \<open>finalState\<close>, and after it no invocation of that step at
  all: critique never sees the final state, and the recorded critiques are those
  of the candidate before it.
\<close>

theorem capped_final_state_unreviewed:
  assumes "execute H initialState steps w = (out, \<sigma>')"
    and "e \<in> set (auditHistory \<sigma>')" and "phase e = ''revise:capped''"
  shows "\<exists>pre c crs s0 post.
           calls \<sigma>' = pre @ [CritiqueCall (stepIndex e) c (Returns (Array crs)),
                             ReviseCall (stepIndex e) c crs s0 (Returns (finalState e))] @ post \<and>
           critiques e = Some crs \<and> crs \<noteq> [] \<and>
           (\<forall>x\<in>set post. call_index x \<noteq> stepIndex e)"
proof -
  let ?\<sigma>0 = "\<lparr> auditHistory = [], state = initialState, world = w, calls = [] \<rparr>"
  from assms(1) have run: "run_steps H 0 steps ?\<sigma>0 = (out, \<sigma>')" by (simp add: execute_def)
  from run_steps_capped[OF run] assms(2,3) show ?thesis by simp
qed

theorem capped_final_state_unreviewed_witness:
  "hd (auditHistory (snd (execute clock_host Null [Some not_three_step] 0)))
     \<in> set (auditHistory (snd (execute clock_host Null [Some not_three_step] 0))) \<and>
   phase (hd (auditHistory (snd (execute clock_host Null [Some not_three_step] 0))))
     = ''revise:capped'' \<and>
   finalState (hd (auditHistory (snd (execute clock_host Null [Some not_three_step] 0))))
     = Value 2 \<and>
   critiques (hd (auditHistory (snd (execute clock_host Null [Some not_three_step] 0))))
     = Some [''not three''] \<and>
   calls (snd (execute clock_host Null [Some not_three_step] 0))
     = [DraftCall 0 Null (Returns (Value 0)),
        CritiqueCall 0 (Value 0) (Returns (Array [''not three''])),
        ReviseCall 0 (Value 0) [''not three''] Null (Returns (Value 1))] @
       [CritiqueCall 0 (Value 1) (Returns (Array [''not three''])),
        ReviseCall 0 (Value 1) [''not three''] Null (Returns (Value 2))] @ []"
  using capped_final_state_unreviewed[where H = clock_host and initialState = Null
      and steps = "[Some not_three_step]" and w = 0
      and out = "fst (execute clock_host Null [Some not_three_step] 0)"
      and \<sigma>' = "snd (execute clock_host Null [Some not_three_step] 0)"
      and e = "hd (auditHistory (snd (execute clock_host Null [Some not_three_step] 0)))"]
  by (simp add: run_eval)

end
